theory Spec2Isabelle
  imports Main "HOL-Library.Sublist"
begin

section \<open>Python string operations\<close>

text \<open>
  A Python \<open>str\<close> is modelled by the list of the bytes of its UTF-8 encoding. Substring
  search and replacement on the bytes agree with those on the code points, since no
  UTF-8 encoding of a code point occurs inside or across the encodings of others.
\<close>

text \<open>\<open>sub in s\<close>\<close>

fun str_contains :: "string \<Rightarrow> string \<Rightarrow> bool" where
  "str_contains [] sub = (sub = [])"
| "str_contains (c # cs) sub = (prefix sub (c # cs) \<or> str_contains cs sub)"

text \<open>
  \<open>s.replace(old, new)\<close> for a non-empty \<open>old\<close>: the scan goes left to right, and a match
  is replaced and skipped, so that the occurrences replaced do not overlap.
\<close>

function replace_from :: "string \<Rightarrow> string \<Rightarrow> string \<Rightarrow> string" where
  "replace_from old new [] = []"
| "replace_from old new (c # cs) =
     (if old \<noteq> [] \<and> prefix old (c # cs)
      then new @ replace_from old new (drop (length old) (c # cs))
      else c # replace_from old new cs)"
  by pat_completeness auto
termination
  by (relation "measure (\<lambda>(old, new, s). length s)") (auto simp: neq_Nil_conv)

text \<open>With an empty \<open>old\<close>, Python puts \<open>new\<close> before every character and at the end.\<close>

definition str_replace :: "string \<Rightarrow> string \<Rightarrow> string \<Rightarrow> string" where
  "str_replace s old new =
     (if old = [] then new @ concat (map (\<lambda>c. c # new) s) else replace_from old new s)"

text \<open>\<open>sep.join(parts)\<close>\<close>

fun join :: "string \<Rightarrow> string list \<Rightarrow> string" where
  "join sep [] = []"
| "join sep [u] = u"
| "join sep (u # v # vs) = u @ sep @ join sep (v # vs)"

text \<open>The number of positions of \<open>s\<close> at which \<open>sub\<close> occurs.\<close>

fun count_occ :: "string \<Rightarrow> string \<Rightarrow> nat" where
  "count_occ [] sub = (if sub = [] then 1 else 0)"
| "count_occ (c # cs) sub = (if prefix sub (c # cs) then 1 else 0) + count_occ cs sub"

text \<open>
  A character of the text is one byte below \<open>0x80\<close>, or a lead byte with the continuation
  bytes that follow it; \<open>utf8_width\<close> is the number of bytes that the lead byte announces.
\<close>

definition continuation :: "char \<Rightarrow> bool" where
  "continuation c = (0x80 \<le> (of_char c :: nat) \<and> (of_char c :: nat) \<le> 0xBF)"

definition utf8_width :: "char \<Rightarrow> nat" where
  "utf8_width c =
     (if (of_char c :: nat) < 0xC0 then 1
      else if (of_char c :: nat) < 0xE0 then 2
      else if (of_char c :: nat) < 0xF0 then 3
      else 4)"

text \<open>
  The regular expression of \<open>issue_date\<close> is a sequence of items that match one character
  each: a literal ASCII character, or \<open>\d\<close>. On a \<open>str\<close>, \<open>\d\<close> matches every decimal digit
  of Unicode (category Nd): an ASCII digit, or a character of the table \<open>decimal\<close>, which
  holds the UTF-8 encodings of the other decimal digits of the Unicode database of the
  interpreter. The table is a parameter of the model. An item gives the number of bytes
  that it matches, a pattern the number of bytes of all its items.
\<close>

datatype re_item = Lit char | Digit

fun match_item :: "(string \<Rightarrow> bool) \<Rightarrow> re_item \<Rightarrow> string \<Rightarrow> nat option" where
  "match_item decimal i [] = None"
| "match_item decimal (Lit a) (c # cs) = (if a = c then Some 1 else None)"
| "match_item decimal Digit (c # cs) =
     (if c \<in> set ''0123456789'' then Some 1
      else if 1 < utf8_width c \<and> utf8_width c \<le> length (c # cs)
              \<and> list_all continuation (take (utf8_width c - 1) cs)
              \<and> decimal (take (utf8_width c) (c # cs))
      then Some (utf8_width c)
      else None)"

fun match_here :: "(string \<Rightarrow> bool) \<Rightarrow> re_item list \<Rightarrow> string \<Rightarrow> nat option" where
  "match_here decimal [] s = Some 0"
| "match_here decimal (i # is) s =
     (case match_item decimal i s of
        None \<Rightarrow> None
      | Some n \<Rightarrow> map_option (\<lambda>m. n + m) (match_here decimal is (drop n s)))"

text \<open>
  \<open>re.search\<close>: the text matched at the leftmost position where the pattern matches. The
  positions tried are those of the bytes: at a continuation byte no item of the two kinds
  matches, so that these are the positions of the characters.
\<close>

fun re_search :: "(string \<Rightarrow> bool) \<Rightarrow> re_item list \<Rightarrow> string \<Rightarrow> string option" where
  "re_search decimal pat [] =
     (case match_here decimal pat [] of None \<Rightarrow> None | Some n \<Rightarrow> Some [])"
| "re_search decimal pat (c # cs) =
     (case match_here decimal pat (c # cs) of
        None \<Rightarrow> re_search decimal pat cs
      | Some n \<Rightarrow> Some (take n (c # cs)))"

text \<open>
  Two tables for examples: the one without any digit beyond ASCII, and the one of the
  fullwidth digits \<open>U+FF10\<close> to \<open>U+FF19\<close>, whose encodings are \<open>EF BC 90\<close> to \<open>EF BC 99\<close>;
  and the date 2025-07-29 written with fullwidth digits.
\<close>

definition ascii_only :: "string \<Rightarrow> bool" where
  "ascii_only ch = False"



section \<open>The literal-text engine (parserv2.py)\<close>

record TagXML =
  original_string :: string
  parent :: string

definition is_present :: "TagXML \<Rightarrow> bool" where
  "is_present t = str_contains (parent t) (original_string t)"

text \<open>The two messages that \<open>logic_invoice_period\<close> gives to \<open>log.warning\<close>.\<close>

datatype warning = No_LineCountNumeric | No_IssueDate

text \<open>
  The processor once its text is loaded: \<open>content\<close> is \<open>self._content\<close>, and \<open>log\<close> collects
  the warnings logged so far.
\<close>

record processor =
  content :: string
  log :: "warning list"

definition codigo_prestador :: "processor \<Rightarrow> TagXML" where
  "codigo_prestador p =
     \<lparr>original_string = ''<Name>CODIGO_PRESTADOR</Name>'' @ [CHR 0x0A]
        @ ''                  <Value>Array</Value>'',
      parent = content p\<rparr>"

definition modalidad_pago :: "processor \<Rightarrow> TagXML" where
  \<open>modalidad_pago p =
     \<lparr>original_string = ''<Name>MODALIDAD_PAGO</Name>'' @ [CHR 0x0A]
        @ ''                  <Value schemeID="Array" schemeName="salud_modalidad_pago.gc"></Value>'',
      parent = content p\<rparr>\<close>

definition cobertura :: "processor \<Rightarrow> TagXML" where
  \<open>cobertura p =
     \<lparr>original_string = ''<Name>COBERTURA_PLAN_BENEFICIOS</Name>'' @ [CHR 0x0A]
        @ ''                  <Value schemeID="Array" schemeName="salud_cobertura.gc"></Value>'',
      parent = content p\<rparr>\<close>

definition numero_contrato :: "processor \<Rightarrow> TagXML" where
  "numero_contrato p =
     \<lparr>original_string = ''<Name>NUMERO_CONTRATO</Name>'' @ [CHR 0x0A]
        @ ''                  <Value>Array</Value>'',
      parent = content p\<rparr>"

definition numero_poliza :: "processor \<Rightarrow> TagXML" where
  "numero_poliza p =
     \<lparr>original_string = ''<Name>NUMERO_POLIZA</Name>'' @ [CHR 0x0A]
        @ ''                  <Value>Array</Value>'',
      parent = content p\<rparr>"

definition evento_pbs :: "processor \<Rightarrow> TagXML" where
  "evento_pbs p = \<lparr>original_string = ''Evento PBS'', parent = content p\<rparr>"

definition evento_no_pbs :: "processor \<Rightarrow> TagXML" where
  "evento_no_pbs p = \<lparr>original_string = ''Evento NO PBS'', parent = content p\<rparr>"

definition is_invoice_period_present :: "processor \<Rightarrow> bool" where
  "is_invoice_period_present p = str_contains (content p) ''<cac:InvoicePeriod>''"

definition is_subsidiado_present :: "processor \<Rightarrow> bool" where
  "is_subsidiado_present p = str_contains (content p) ''Subsidiado''"

definition is_contributivo_present :: "processor \<Rightarrow> bool" where
  "is_contributivo_present p = str_contains (content p) ''Contributivo''"

definition line_counter_numeric :: "processor \<Rightarrow> TagXML" where
  "line_counter_numeric p =
     \<lparr>original_string = ''</cbc:LineCountNumeric>'', parent = content p\<rparr>"

text \<open>The pattern \<open>FecFac: (\d{4}-\d{2}-\d{2})\<close>; group 1 starts after its first 8 characters.\<close>

definition issue_date_pattern :: "re_item list" where
  "issue_date_pattern =
     map Lit ''FecFac: '' @
     [Digit, Digit, Digit, Digit, Lit (CHR ''-''), Digit, Digit, Lit (CHR ''-''), Digit, Digit]"

definition issue_date :: "(string \<Rightarrow> bool) \<Rightarrow> processor \<Rightarrow> string option" where
  "issue_date decimal p = map_option (drop 8) (re_search decimal issue_date_pattern (content p))"

text \<open>The names that \<open>update_content\<close> is called with, and \<open>getattr(self, attr)\<close> on them.\<close>

datatype attr =
  Attr_codigo_prestador | Attr_modalidad_pago | Attr_cobertura
  | Attr_numero_contrato | Attr_numero_poliza | Attr_line_counter_numeric

fun getattr :: "processor \<Rightarrow> attr \<Rightarrow> TagXML" where
  "getattr p Attr_codigo_prestador = codigo_prestador p"
| "getattr p Attr_modalidad_pago = modalidad_pago p"
| "getattr p Attr_cobertura = cobertura p"
| "getattr p Attr_numero_contrato = numero_contrato p"
| "getattr p Attr_numero_poliza = numero_poliza p"
| "getattr p Attr_line_counter_numeric = line_counter_numeric p"

definition update_content :: "attr \<Rightarrow> string \<Rightarrow> processor \<Rightarrow> processor" where
  "update_content a new_string p =
     p\<lparr>content := str_replace (content p) (original_string (getattr p a)) new_string\<rparr>"

definition logic_codigo_prestador :: "processor \<Rightarrow> processor" where
  "logic_codigo_prestador p =
     (if is_present (codigo_prestador p)
      then update_content Attr_codigo_prestador
             (str_replace (original_string (codigo_prestador p))
                ''<Value>Array</Value>'' ''<Value>0800185010</Value>'') p
      else p)"

definition logic_modalidad_pago :: "processor \<Rightarrow> processor" where
  \<open>logic_modalidad_pago p =
     (if is_present (modalidad_pago p)
      then update_content Attr_modalidad_pago
             (str_replace (original_string (modalidad_pago p))
                ''<Value schemeID="Array" schemeName="salud_modalidad_pago.gc"></Value>''
                ''<Value schemeID="04" schemeName="salud_modalidad_pago.gc">Pago por evento</Value>'') p
      else p)\<close>

text \<open>The accented letter of the label \<open>Presupuesto maximo\<close> is the two bytes C3 A1.\<close>

definition logic_cobertura :: "processor \<Rightarrow> processor" where
  \<open>logic_cobertura p =
     (if is_present (cobertura p)
      then
        (if is_present (evento_no_pbs p)
         then update_content Attr_cobertura
                (str_replace (original_string (cobertura p))
                   ''<Value schemeID="Array" schemeName="salud_cobertura.gc"></Value>''
                   (''<Value schemeID="02" schemeName="salud_cobertura.gc">Presupuesto m''
                      @ [CHR 0xC3, CHR 0xA1] @ ''ximo</Value>'')) p
         else if is_present (evento_pbs p)
         then update_content Attr_cobertura
                (str_replace (original_string (cobertura p))
                   ''<Value schemeID="Array" schemeName="salud_cobertura.gc"></Value>''
                   ''<Value schemeID="01" schemeName="salud_cobertura.gc">Plan de beneficios en salud financiado con UPC</Value>'') p
         else p)
      else p)\<close>

definition logic_numero_contrato :: "processor \<Rightarrow> processor" where
  "logic_numero_contrato p =
     (if is_present (numero_contrato p)
      then
        (if is_subsidiado_present p
         then update_content Attr_numero_contrato
                (str_replace (original_string (numero_contrato p))
                   ''<Value>Array</Value>'' ''<Value>10787</Value>'') p
         else if is_contributivo_present p
         then update_content Attr_numero_contrato
                (str_replace (original_string (numero_contrato p))
                   ''<Value>Array</Value>'' ''<Value>3672</Value>'') p
         else p)
      else p)"

definition logic_numero_poliza :: "processor \<Rightarrow> processor" where
  "logic_numero_poliza p =
     (if is_present (numero_poliza p)
      then update_content Attr_numero_poliza
             (str_replace (original_string (numero_poliza p))
                ''<Value>Array</Value>'' ''<Value>NA</Value>'') p
      else p)"

text \<open>The f-string of \<open>logic_invoice_period\<close>: the anchor, then the block on six lines.\<close>

definition new_invoice_period :: "string \<Rightarrow> string \<Rightarrow> string" where
  "new_invoice_period anchor d =
     anchor @ [CHR 0x0A] @ ''<cac:InvoicePeriod>'' @ [CHR 0x0A]
     @ '' <cbc:StartDate>'' @ d @ ''</cbc:StartDate>'' @ [CHR 0x0A]
     @ '' <cbc:StartTime>12:00:00</cbc:StartTime>'' @ [CHR 0x0A]
     @ '' <cbc:EndDate>'' @ d @ ''</cbc:EndDate>'' @ [CHR 0x0A]
     @ '' <cbc:EndTime>11:59:59</cbc:EndTime>'' @ [CHR 0x0A]
     @ ''</cac:InvoicePeriod>''"

definition logic_invoice_period :: "(string \<Rightarrow> bool) \<Rightarrow> processor \<Rightarrow> processor" where
  "logic_invoice_period decimal p =
     (if is_invoice_period_present p then p
      else if \<not> is_present (line_counter_numeric p)
      then p\<lparr>log := log p @ [No_LineCountNumeric]\<rparr>
      else
        (case issue_date decimal p of
           None \<Rightarrow> p\<lparr>log := log p @ [No_IssueDate]\<rparr>
         | Some d \<Rightarrow>
             if d = [] then p\<lparr>log := log p @ [No_IssueDate]\<rparr>
             else update_content Attr_line_counter_numeric
                    (new_invoice_period (original_string (line_counter_numeric p)) d) p))"

text \<open>
  The statistics that the tree-based \<open>process_all\<close> of parser.py builds. The \<open>process_all\<close>
  of parserv2.py has no \<open>return\<close>: it returns Python's \<open>None\<close>, here \<open>None\<close>.
\<close>

record stats =
  description_xmls_processed :: nat
  invoice_period_added :: bool

definition process_all :: "(string \<Rightarrow> bool) \<Rightarrow> processor \<Rightarrow> stats option \<times> processor" where
  "process_all decimal p =
     (None,
      logic_invoice_period decimal
        (logic_numero_poliza
          (logic_numero_contrato
            (logic_modalidad_pago
              (logic_codigo_prestador
                (logic_cobertura p))))))"


section \<open>Files, paths and the cached text\<close>

datatype py_error = FileNotFoundError | UnicodeDecodeError | ValueError | ParserError | AttributeError

text \<open>
  A path of pathlib, already parsed: the components before the last one, and the name,
  which is the last component, or empty for a path such as \<open>/\<close> or \<open>.\<close> that has none.
\<close>

record path =
  parent_parts :: "string list"
  name :: string

text \<open>\<open>name.rfind('.')\<close>: the last index of the dot, or \<open>-1\<close>.\<close>

fun rfind_from :: "char \<Rightarrow> string \<Rightarrow> int \<Rightarrow> int \<Rightarrow> int" where
  "rfind_from c [] i best = best"
| "rfind_from c (x # xs) i best = rfind_from c xs (i + 1) (if x = c then i else best)"

definition rfind :: "string \<Rightarrow> char \<Rightarrow> int" where
  "rfind s c = rfind_from c s 0 (- 1)"

definition suffix_of :: "path \<Rightarrow> string" where
  "suffix_of q =
     (let i = rfind (name q) (CHR ''.'')
      in if 0 < i \<and> i < int (length (name q)) - 1 then drop (nat i) (name q) else [])"

definition stem :: "path \<Rightarrow> string" where
  "stem q =
     (let i = rfind (name q) (CHR ''.'')
      in if 0 < i \<and> i < int (length (name q)) - 1 then take (nat i) (name q) else name q)"

text \<open>
  \<open>with_name\<close> raises \<open>ValueError\<close> on a path that has no name, and on a new name that is
  empty, is a dot or holds a separator; \<open>with_stem\<close> keeps the suffix.
\<close>

definition valid_name :: "string \<Rightarrow> bool" where
  "valid_name n = (n \<noteq> [] \<and> CHR ''/'' \<notin> set n \<and> n \<noteq> ''.'')"

definition with_name :: "path \<Rightarrow> string \<Rightarrow> py_error + path" where
  "with_name q n =
     (if name q = [] then Inl ValueError
      else if \<not> valid_name n then Inl ValueError
      else Inr (q\<lparr>name := n\<rparr>))"

definition with_stem :: "path \<Rightarrow> string \<Rightarrow> py_error + path" where
  "with_stem q s = with_name q (s @ suffix_of q)"

text \<open>
  The world outside the processor: the bytes of every file, the reads of files so far,
  and the warnings logged so far.
\<close>

record world =
  files :: "path \<Rightarrow> string option"
  reads :: "path list"
  warnings :: "warning list"

text \<open>Whether bytes are well-formed UTF-8.\<close>

fun utf8_valid :: "string \<Rightarrow> bool" where
  "utf8_valid [] = True"
| "utf8_valid [c] = ((of_char c :: nat) < 0x80)"
| "utf8_valid [c, c1] =
     (if (of_char c :: nat) < 0x80 then utf8_valid [c1]
      else 0xC2 \<le> (of_char c :: nat) \<and> (of_char c :: nat) \<le> 0xDF \<and> continuation c1)"
| "utf8_valid [c, c1, c2] =
     (if (of_char c :: nat) < 0x80 then utf8_valid [c1, c2]
      else if 0xC2 \<le> (of_char c :: nat) \<and> (of_char c :: nat) \<le> 0xDF
      then continuation c1 \<and> utf8_valid [c2]
      else 0xE0 \<le> (of_char c :: nat) \<and> (of_char c :: nat) \<le> 0xEF
        \<and> continuation c1 \<and> continuation c2
        \<and> ((of_char c :: nat) \<noteq> 0xE0 \<or> 0xA0 \<le> (of_char c1 :: nat))
        \<and> ((of_char c :: nat) \<noteq> 0xED \<or> (of_char c1 :: nat) \<le> 0x9F))"
| "utf8_valid (c # c1 # c2 # c3 # cs) =
     (if (of_char c :: nat) < 0x80 then utf8_valid (c1 # c2 # c3 # cs)
      else if 0xC2 \<le> (of_char c :: nat) \<and> (of_char c :: nat) \<le> 0xDF
      then continuation c1 \<and> utf8_valid (c2 # c3 # cs)
      else if 0xE0 \<le> (of_char c :: nat) \<and> (of_char c :: nat) \<le> 0xEF
      then continuation c1 \<and> continuation c2
        \<and> ((of_char c :: nat) \<noteq> 0xE0 \<or> 0xA0 \<le> (of_char c1 :: nat))
        \<and> ((of_char c :: nat) \<noteq> 0xED \<or> (of_char c1 :: nat) \<le> 0x9F)
        \<and> utf8_valid (c3 # cs)
      else 0xF0 \<le> (of_char c :: nat) \<and> (of_char c :: nat) \<le> 0xF4
        \<and> continuation c1 \<and> continuation c2 \<and> continuation c3
        \<and> ((of_char c :: nat) \<noteq> 0xF0 \<or> 0x90 \<le> (of_char c1 :: nat))
        \<and> ((of_char c :: nat) \<noteq> 0xF4 \<or> (of_char c1 :: nat) \<le> 0x8F)
        \<and> utf8_valid cs)"

text \<open>
  A file opened for reading in text mode has universal newlines: \<open>\r\n\<close> and a lone \<open>\r\<close>
  are both read as \<open>\n\<close>.
\<close>

fun universal_newlines :: "string \<Rightarrow> string" where
  "universal_newlines [] = []"
| "universal_newlines [c] = (if c = CHR 0x0D then [CHR 0x0A] else [c])"
| "universal_newlines (c # c1 # cs) =
     (if c = CHR 0x0D
      then (if c1 = CHR 0x0A then CHR 0x0A # universal_newlines cs
            else CHR 0x0A # universal_newlines (c1 # cs))
      else c # universal_newlines (c1 # cs))"

text \<open>\<open>Path.read_text(encoding='utf-8')\<close>\<close>

definition read_text :: "world \<Rightarrow> path \<Rightarrow> (py_error + string) \<times> world" where
  "read_text w q =
     (case files w q of
        None \<Rightarrow> (Inl FileNotFoundError, w)
      | Some b \<Rightarrow>
          (if utf8_valid b then Inr (universal_newlines b) else Inl UnicodeDecodeError,
           w\<lparr>reads := reads w @ [q]\<rparr>))"

text \<open>
  \<open>Path.write_text(data, encoding='utf-8')\<close> where \<open>os.linesep\<close> is \<open>\n\<close>, as on the POSIX
  systems whose paths the code names: the bytes of the text are written as they are.
\<close>

definition write_text :: "world \<Rightarrow> path \<Rightarrow> string \<Rightarrow> world" where
  "write_text w q data = w\<lparr>files := (files w)(q := Some data)\<rparr>"

text \<open>The processor object of parserv2.py: \<open>cached\<close> is \<open>self._content\<close>.\<close>

record processor_object =
  input_path :: path
  cached :: "string option"

definition init :: "path \<Rightarrow> processor_object" where
  "init q = \<lparr>input_path = q, cached = None\<rparr>"

text \<open>The getter and the setter of the property \<open>content\<close>.\<close>

definition get_content :: "world \<Rightarrow> processor_object \<Rightarrow> (py_error + string) \<times> world \<times> processor_object" where
  "get_content w i =
     (case cached i of
        Some c \<Rightarrow> (Inr c, w, i)
      | None \<Rightarrow>
          (case read_text w (input_path i) of
             (Inl e, w') \<Rightarrow> (Inl e, w', i)
           | (Inr txt, w') \<Rightarrow> (Inr txt, w', i\<lparr>cached := Some txt\<rparr>)))"

definition set_content :: "string \<Rightarrow> processor_object \<Rightarrow> processor_object" where
  "set_content v i = i\<lparr>cached := Some v\<rparr>"

text \<open>\<open>n\<close> reads of \<open>self.content\<close> in a row; the values read, in order.\<close>

fun get_content_times :: "nat \<Rightarrow> world \<Rightarrow> processor_object \<Rightarrow> (py_error + string) list \<times> world \<times> processor_object" where
  "get_content_times 0 w i = ([], w, i)"
| "get_content_times (Suc n) w i =
     (case get_content w i of
        (r, w', i') \<Rightarrow> (case get_content_times n w' i' of (rs, w'', i'') \<Rightarrow> (r # rs, w'', i'')))"

text \<open>
  \<open>process_all\<close> on the object: the first rule reads \<open>self.content\<close>, which loads the file
  or raises; from then on every rule works on the cached text.
\<close>

definition process_all_on ::
  "(string \<Rightarrow> bool) \<Rightarrow> world \<Rightarrow> processor_object
     \<Rightarrow> (py_error + stats option) \<times> world \<times> processor_object" where
  "process_all_on decimal w i =
     (case get_content w i of
        (Inl e, w', i') \<Rightarrow> (Inl e, w', i')
      | (Inr c, w', i') \<Rightarrow>
          (case process_all decimal \<lparr>content = c, log = warnings w'\<rparr> of
             (r, p') \<Rightarrow> (Inr r, w'\<lparr>warnings := log p'\<rparr>, set_content (content p') i')))"

definition save :: "world \<Rightarrow> processor_object \<Rightarrow> path option \<Rightarrow> (py_error + path) \<times> world \<times> processor_object" where
  "save w i output_path =
     (case (case output_path of
              None \<Rightarrow> with_stem (input_path i) (stem (input_path i))
            | Some q \<Rightarrow> Inr q) of
        Inl e \<Rightarrow> (Inl e, w, i)
      | Inr q \<Rightarrow>
          (case get_content w i of
             (Inl e, w', i') \<Rightarrow> (Inl e, w', i')
           | (Inr c, w', i') \<Rightarrow> (Inr q, write_text w' q c, i')))"

text \<open>\<open>File.update_invoice\<close> of files.py: a new processor, \<open>process_all\<close>, then \<open>save()\<close>.\<close>

definition update_invoice :: "(string \<Rightarrow> bool) \<Rightarrow> world \<Rightarrow> path \<Rightarrow> (py_error + path) \<times> world" where
  "update_invoice decimal w q =
     (case process_all_on decimal w (init q) of
        (Inl e, w', i') \<Rightarrow> (Inl e, w')
      | (Inr r, w', i') \<Rightarrow> (case save w' i' None of (res, w'', i'') \<Rightarrow> (res, w'')))"

section \<open>The tree-based engine (parser.py)\<close>

text \<open>
  The object of parser.py: \<open>self._content\<close>, which only \<open>__init__\<close> assigns, and
  \<open>self._soup\<close>. The two parsers of BeautifulSoup are parameters; \<open>None\<close> is a parser
  that raises.
\<close>

record 'soup tree_processor =
  tree_input_path :: path
  tree_content :: "string option"
  tree_soup :: "'soup option"

definition tree_init :: "path \<Rightarrow> 'soup tree_processor" where
  "tree_init q = \<lparr>tree_input_path = q, tree_content = None, tree_soup = None\<rparr>"

definition open_and_parse ::
  "(string \<Rightarrow> 'soup option) \<Rightarrow> world \<Rightarrow> path \<Rightarrow> (py_error + 'soup) \<times> world" where
  "open_and_parse parser w q =
     (case read_text w q of
        (Inl e, w') \<Rightarrow> (Inl e, w')
      | (Inr txt, w') \<Rightarrow>
          (case parser txt of None \<Rightarrow> (Inl ParserError, w') | Some s \<Rightarrow> (Inr s, w')))"

definition soup ::
  "(string \<Rightarrow> 'soup option) \<Rightarrow> (string \<Rightarrow> 'soup option) \<Rightarrow> world \<Rightarrow> 'soup tree_processor
     \<Rightarrow> (py_error + 'soup) \<times> world \<times> 'soup tree_processor" where
  "soup lxml_xml lxml w i =
     (if tree_content i = None
      then
        (case open_and_parse lxml_xml w (tree_input_path i) of
           (Inr s, w') \<Rightarrow> (Inr s, w', i\<lparr>tree_soup := Some s\<rparr>)
         | (Inl e, w') \<Rightarrow>
             (case open_and_parse lxml w' (tree_input_path i) of
                (Inr s, w'') \<Rightarrow> (Inr s, w'', i\<lparr>tree_soup := Some s\<rparr>)
              | (Inl e', w'') \<Rightarrow> (Inl e', w'', i)))
      else
        (case tree_soup i of
           Some s \<Rightarrow> (Inr s, w, i)
         | None \<Rightarrow> (Inl AttributeError, w, i)))"

text \<open>
  What \<open>self.soup\<close> is. The class defines \<open>soup\<close> with \<open>def\<close> and without \<open>@property\<close>, so
  that the attribute is the bound method itself, in every state, and not a parsed
  document. A method object has no attribute \<open>find_all\<close>: \<open>self.soup.find_all(...)\<close> raises
  \<open>AttributeError\<close>. On a parsed document \<open>find_all('Description')\<close> gives its Description
  elements in document order; \<open>descriptions\<close> is that function of BeautifulSoup.
\<close>

datatype 'soup attribute = Bound_method | Parsed 'soup

definition soup_attribute :: "'soup tree_processor \<Rightarrow> 'soup attribute" where
  "soup_attribute i = Bound_method"

definition find_all :: "('soup \<Rightarrow> 'tag list) \<Rightarrow> 'soup attribute \<Rightarrow> py_error + 'tag list" where
  "find_all descriptions a =
     (case a of Bound_method \<Rightarrow> Inl AttributeError | Parsed s \<Rightarrow> Inr (descriptions s))"

text \<open>
  The loop of \<open>_get_all_description_xmls\<close> over the slice \<open>description_tags[1:2]\<close>:
  \<open>tag_string\<close> is \<open>description_tag.string\<close>, and \<open>parse\<close> is the parser of the nested text,
  \<open>None\<close> where it raises.
\<close>

fun collect_description_xmls ::
  "('tag \<Rightarrow> string option) \<Rightarrow> (string \<Rightarrow> 'xml option) \<Rightarrow> 'tag list \<Rightarrow> ('tag \<times> 'xml) list" where
  "collect_description_xmls tag_string parse [] = []"
| "collect_description_xmls tag_string parse (t # ts) =
     (case tag_string t of
        None \<Rightarrow> collect_description_xmls tag_string parse ts
      | Some text \<Rightarrow>
          if text = [] then collect_description_xmls tag_string parse ts
          else
            (case parse text of
               None \<Rightarrow> collect_description_xmls tag_string parse ts
             | Some x \<Rightarrow> (t, x) # collect_description_xmls tag_string parse ts))"

definition get_all_description_xmls ::
  "('tag \<Rightarrow> string option) \<Rightarrow> (string \<Rightarrow> 'xml option) \<Rightarrow> ('soup \<Rightarrow> 'tag list)
     \<Rightarrow> 'soup tree_processor \<Rightarrow> py_error + ('tag \<times> 'xml) list" where
  "get_all_description_xmls tag_string parse descriptions i =
     (case find_all descriptions (soup_attribute i) of
        Inl e \<Rightarrow> Inl e
      | Inr description_tags \<Rightarrow>
          Inr (collect_description_xmls tag_string parse (take 1 (drop 1 description_tags))))"

section \<open>Notions for the proofs\<close>

text \<open>
  \<open>starts_in p q\<close>: at some position of \<open>q\<close>, what is left of \<open>q\<close> is a prefix of \<open>p\<close> or has
  \<open>p\<close> as a prefix. \<open>clash p q\<close>: an occurrence of \<open>p\<close> and one of \<open>q\<close> can share a character.
\<close>

fun starts_in :: "string \<Rightarrow> string \<Rightarrow> bool" where
  "starts_in p [] = False"
| "starts_in p (c # t) = (prefix p (c # t) \<or> prefix (c # t) p \<or> starts_in p t)"

definition clash :: "string \<Rightarrow> string \<Rightarrow> bool" where
  "clash p q = (starts_in p q \<or> starts_in q (tl p))"

text \<open>
  \<open>patched R s t\<close>: \<open>t\<close> is \<open>s\<close> with some occurrences of left sides of \<open>R\<close>, which do not
  overlap, replaced by their right sides, and every other character kept in place.
\<close>

inductive patched :: "(string \<times> string) set \<Rightarrow> string \<Rightarrow> string \<Rightarrow> bool" for R where
  patched_Nil: "patched R [] []"
| patched_Keep: "patched R s t \<Longrightarrow> patched R (c # s) (c # t)"
| patched_Subst: "(old, new) \<in> R \<Longrightarrow> patched R s t \<Longrightarrow> patched R (old @ s) (new @ t)"

text \<open>
  The strings that the rules look for and put in place. The replacement strings are the
  values of the \<open>replace\<close> calls of the rules, as the lemmas on them below prove.
\<close>

definition cod_old :: string where
  "cod_old = ''<Name>CODIGO_PRESTADOR</Name>'' @ [CHR 0x0A]
     @ ''                  <Value>Array</Value>''"

definition cod_new :: string where
  "cod_new = ''<Name>CODIGO_PRESTADOR</Name>'' @ [CHR 0x0A]
     @ ''                  <Value>0800185010</Value>''"

definition mod_old :: string where
  \<open>mod_old = ''<Name>MODALIDAD_PAGO</Name>'' @ [CHR 0x0A]
     @ ''                  <Value schemeID="Array" schemeName="salud_modalidad_pago.gc"></Value>''\<close>

definition mod_new :: string where
  \<open>mod_new = ''<Name>MODALIDAD_PAGO</Name>'' @ [CHR 0x0A]
     @ ''                  <Value schemeID="04" schemeName="salud_modalidad_pago.gc">Pago por evento</Value>''\<close>

definition cob_old :: string where
  \<open>cob_old = ''<Name>COBERTURA_PLAN_BENEFICIOS</Name>'' @ [CHR 0x0A]
     @ ''                  <Value schemeID="Array" schemeName="salud_cobertura.gc"></Value>''\<close>

definition cob_new_no_pbs :: string where
  \<open>cob_new_no_pbs = ''<Name>COBERTURA_PLAN_BENEFICIOS</Name>'' @ [CHR 0x0A]
     @ ''                  <Value schemeID="02" schemeName="salud_cobertura.gc">Presupuesto m''
     @ [CHR 0xC3, CHR 0xA1] @ ''ximo</Value>''\<close>

definition cob_new_pbs :: string where
  \<open>cob_new_pbs = ''<Name>COBERTURA_PLAN_BENEFICIOS</Name>'' @ [CHR 0x0A]
     @ ''                  <Value schemeID="01" schemeName="salud_cobertura.gc">Plan de beneficios en salud financiado con UPC</Value>''\<close>

definition con_old :: string where
  "con_old = ''<Name>NUMERO_CONTRATO</Name>'' @ [CHR 0x0A]
     @ ''                  <Value>Array</Value>''"

definition con_new_sub :: string where
  "con_new_sub = ''<Name>NUMERO_CONTRATO</Name>'' @ [CHR 0x0A]
     @ ''                  <Value>10787</Value>''"

definition con_new_con :: string where
  "con_new_con = ''<Name>NUMERO_CONTRATO</Name>'' @ [CHR 0x0A]
     @ ''                  <Value>3672</Value>''"

definition pol_old :: string where
  "pol_old = ''<Name>NUMERO_POLIZA</Name>'' @ [CHR 0x0A]
     @ ''                  <Value>Array</Value>''"

definition pol_new :: string where
  "pol_new = ''<Name>NUMERO_POLIZA</Name>'' @ [CHR 0x0A]
     @ ''                  <Value>NA</Value>''"

definition anchor :: string where
  "anchor = ''</cbc:LineCountNumeric>''"

definition period_tag :: string where
  "period_tag = ''<cac:InvoicePeriod>''"

definition field_pairs :: "(string \<times> string) list" where
  "field_pairs =
     [(cob_old, cob_new_no_pbs), (cob_old, cob_new_pbs), (cod_old, cod_new), (mod_old, mod_new),
      (con_old, con_new_sub), (con_old, con_new_con), (pol_old, pol_new)]"

text \<open>
  The parts of the text of \<open>new_invoice_period\<close> around the two dates, and the bytes
  that a date matched by \<open>issue_date_pattern\<close> can hold: ASCII digits, the hyphen, and
  the bytes of characters beyond ASCII.
\<close>

definition period_head :: string where
  "period_head = [CHR 0x0A] @ ''<cac:InvoicePeriod>'' @ [CHR 0x0A] @ '' <cbc:StartDate>''"

definition period_mid :: string where
  "period_mid = ''</cbc:StartDate>'' @ [CHR 0x0A] @ '' <cbc:StartTime>12:00:00</cbc:StartTime>''
     @ [CHR 0x0A] @ '' <cbc:EndDate>''"

definition period_tail :: string where
  "period_tail = ''</cbc:EndDate>'' @ [CHR 0x0A] @ '' <cbc:EndTime>11:59:59</cbc:EndTime>''
     @ [CHR 0x0A] @ ''</cac:InvoicePeriod>''"

definition date_char :: "char \<Rightarrow> bool" where
  "date_char c = (c \<in> set ''0123456789-'' \<or> 0x80 \<le> (of_char c :: nat))"

text \<open>
  \<open>inert_outside p own\<close>: no occurrence of \<open>p\<close> can share a character with a string that a
  field rule looks for or puts in place, the rule that looks for \<open>own\<close> apart.
  \<open>inert_period p\<close>: the same for the anchor and the text of the period block, whatever
  the date. \<open>unbordered p\<close>: two occurrences of \<open>p\<close> cannot overlap.
\<close>

definition inert_outside :: "string \<Rightarrow> string \<Rightarrow> bool" where
  "inert_outside p own =
     list_all (\<lambda>(old, new). old = own \<or> (\<not> clash p old \<and> \<not> clash p new)) field_pairs"

definition inert_period :: "string \<Rightarrow> bool" where
  "inert_period p =
     (p \<noteq> [] \<and> \<not> date_char (hd p) \<and> \<not> clash p anchor \<and> \<not> clash p (anchor @ period_head)
      \<and> \<not> clash p period_mid \<and> \<not> clash p period_tail)"

definition unbordered :: "string \<Rightarrow> bool" where
  "unbordered p = (p \<noteq> [] \<and> \<not> starts_in p (tl p))"

text \<open>
  The replacements that the six rules can make: those of the field rules, and the anchor
  by the anchor with a period block, for any date.
\<close>

definition patch_rules :: "(string \<times> string) set" where
  "patch_rules = set field_pairs \<union> {(anchor, new_invoice_period anchor d) | d. True}"

section \<open>Facts on searching and replacing\<close>

lemma str_contains_sublist: "str_contains s sub = sublist sub s"
  by (induction s) (auto simp: sublist_Cons_right)

lemma starts_in_iff:
  "starts_in p q \<longleftrightarrow> (\<exists>t. t \<noteq> [] \<and> suffix t q \<and> (prefix p t \<or> prefix t p))"
  by (induction q) (auto simp: suffix_Cons)

lemma sublist_through:
  assumes "\<not> starts_in p q" "suffix t q" "sublist p (t @ y)"
  shows "sublist p y"
  using assms(2,3)
proof (induction t)
  case Nil
  then show ?case by simp
next
  case (Cons c t)
  have st: "suffix t q" using Cons.prems(1) by (rule suffix_ConsD)
  from Cons.prems(2) have "prefix p (c # t @ y) \<or> sublist p (t @ y)"
    by (simp add: sublist_Cons_right)
  then show ?case
  proof
    assume "prefix p (c # t @ y)"
    then have "prefix p ((c # t) @ y)" by simp
    then have "prefix p (c # t) \<or> prefix (c # t) p"
      unfolding prefix_append by auto
    with assms(1) Cons.prems(1) show ?thesis
      unfolding starts_in_iff by blast
  next
    assume "sublist p (t @ y)"
    with Cons.IH st show ?thesis by blast
  qed
qed

lemma sublist_before:
  assumes "\<not> starts_in q (tl p)" "sublist p (x @ q @ y)"
  shows "sublist p x \<or> sublist p (q @ y)"
  using assms(2)
proof (induction x)
  case Nil
  then show ?case by simp
next
  case (Cons c x)
  from Cons.prems have "prefix p ((c # x) @ (q @ y)) \<or> sublist p (x @ q @ y)"
    by (simp add: sublist_Cons_right)
  then show ?case
  proof
    assume "prefix p ((c # x) @ (q @ y))"
    then consider "prefix p (c # x)" | us where "p = (c # x) @ us" "prefix us (q @ y)"
      unfolding prefix_append by blast
    then show ?thesis
    proof cases
      case 1
      then show ?thesis by blast
    next
      case 2
      show ?thesis
      proof (cases "us = []")
        case True
        with 2 show ?thesis by simp
      next
        case False
        from 2(2) have "prefix us q \<or> prefix q us"
          unfolding prefix_append by auto
        moreover have "suffix us (tl p)" using 2(1) by (simp add: suffix_def)
        ultimately have "starts_in q (tl p)"
          unfolding starts_in_iff using False by blast
        with assms(1) show ?thesis by simp
      qed
    qed
  next
    assume "sublist p (x @ q @ y)"
    then have "sublist p x \<or> sublist p (q @ y)" by (rule Cons.IH)
    then show ?thesis by (auto simp: sublist_Cons_right)
  qed
qed

lemma isolation:
  assumes "\<not> clash p q" "sublist p (x @ q @ y)"
  shows "sublist p x \<or> sublist p y"
proof -
  from assms(1) have a: "\<not> starts_in p q" and b: "\<not> starts_in q (tl p)"
    by (simp_all add: clash_def)
  from sublist_before [OF b assms(2)] show ?thesis
  proof
    assume "sublist p x" then show ?thesis ..
  next
    assume "sublist p (q @ y)"
    from sublist_through [OF a suffix_order.refl this] show ?thesis ..
  qed
qed



lemma replace_from_absent:
  "\<not> sublist old s \<Longrightarrow> replace_from old new s = s"
  by (induction old new s rule: replace_from.induct) (auto simp: sublist_Cons_right)

lemma replace_from_at_occurrence:
  "old \<noteq> [] \<Longrightarrow> replace_from old new (old @ t) = new @ replace_from old new t"
  by (cases old) simp_all

lemma replace_from_first:
  assumes "old \<noteq> []" "sublist old s"
  shows "\<exists>u t. s = u @ old @ t \<and> \<not> sublist old u
               \<and> (\<forall>new. replace_from old new s = u @ new @ replace_from old new t)"
  using assms(2)
proof (induction s)
  case Nil
  with assms(1) show ?case by simp
next
  case (Cons c cs)
  show ?case
  proof (cases "prefix old (c # cs)")
    case True
    then obtain t where t: "c # cs = old @ t" by (auto simp: prefix_def)
    have "\<forall>new. replace_from old new (c # cs) = [] @ new @ replace_from old new t"
      unfolding t using replace_from_at_occurrence [OF assms(1)] by simp
    moreover have "\<not> sublist old []" using assms(1) by simp
    ultimately show ?thesis using t by (metis append_Nil)
  next
    case False
    with Cons.prems have "sublist old cs" by (simp add: sublist_Cons_right)
    from Cons.IH [OF this] obtain u t where
      ut: "cs = u @ old @ t" "\<not> sublist old u"
          "\<forall>new. replace_from old new cs = u @ new @ replace_from old new t"
      by blast
    have nu: "\<not> sublist old (c # u)"
    proof
      assume "sublist old (c # u)"
      then have "prefix old (c # u)" using ut(2) by (simp add: sublist_Cons_right)
      then have "prefix old (c # cs)" using ut(1)
        by (metis append_Cons prefix_prefix)
      with False show False by simp
    qed
    have "c # cs = (c # u) @ old @ t" using ut(1) by simp
    moreover have "\<forall>new. replace_from old new (c # cs) = (c # u) @ new @ replace_from old new t"
      using False ut(3) by simp
    ultimately show ?thesis using nu by blast
  qed
qed

lemma replace_from_no_create:
  assumes "old \<noteq> []" "\<not> clash p new"
  shows "sublist p (replace_from old new s) \<Longrightarrow> sublist p s"
proof (induction s rule: length_induct)
  case (1 s)
  show ?case
  proof (cases "sublist old s")
    case False
    with 1 show ?thesis by (simp add: replace_from_absent)
  next
    case True
    from replace_from_first [OF assms(1) True] obtain u t where
      ut: "s = u @ old @ t" "replace_from old new s = u @ new @ replace_from old new t"
      by blast
    have len: "length t < length s" using ut(1) assms(1) by (cases old) auto
    from "1.prems" ut(2) have "sublist p (u @ new @ replace_from old new t)" by simp
    from isolation [OF assms(2) this] show ?thesis
    proof
      assume "sublist p u"
      then show ?thesis unfolding ut(1) by (metis sublist_order.order.trans sublist_append_rightI)
    next
      assume "sublist p (replace_from old new t)"
      with "1.IH" len have "sublist p t" by blast
      then show ?thesis unfolding ut(1)
        by (metis append_assoc sublist_order.order.trans sublist_append_leftI)
    qed
  qed
qed

lemma replace_from_no_destroy:
  assumes "old \<noteq> []" "\<not> clash p old"
  shows "sublist p s \<Longrightarrow> sublist p (replace_from old new s)"
proof (induction s rule: length_induct)
  case (1 s)
  show ?case
  proof (cases "sublist old s")
    case False
    with 1 show ?thesis by (simp add: replace_from_absent)
  next
    case True
    from replace_from_first [OF assms(1) True] obtain u t where
      ut: "s = u @ old @ t" "replace_from old new s = u @ new @ replace_from old new t"
      by blast
    have len: "length t < length s" using ut(1) assms(1) by (cases old) auto
    from "1.prems" ut(1) have "sublist p (u @ old @ t)" by simp
    from isolation [OF assms(2) this] show ?thesis
    proof
      assume "sublist p u"
      then show ?thesis unfolding ut(2) by (metis sublist_order.order.trans sublist_append_rightI)
    next
      assume "sublist p t"
      with "1.IH" len have "sublist p (replace_from old new t)" by blast
      then show ?thesis unfolding ut(2)
        by (metis append_assoc sublist_order.order.trans sublist_append_leftI)
    qed
  qed
qed

lemma replace_from_eliminates:
  assumes "old \<noteq> []" "\<not> clash old new"
  shows "\<not> sublist old (replace_from old new s)"
proof (induction s rule: length_induct)
  case (1 s)
  show ?case
  proof (cases "sublist old s")
    case False
    then show ?thesis by (simp add: replace_from_absent)
  next
    case True
    from replace_from_first [OF assms(1) True] obtain u t where
      ut: "s = u @ old @ t" "\<not> sublist old u"
          "replace_from old new s = u @ new @ replace_from old new t"
      by blast
    have len: "length t < length s" using ut(1) assms(1) by (cases old) auto
    show ?thesis
    proof
      assume "sublist old (replace_from old new s)"
      then have "sublist old (u @ new @ replace_from old new t)" using ut(3) by simp
      from isolation [OF assms(2) this] have "sublist old (replace_from old new t)"
        using ut(2) by blast
      with "1.IH" len show False by blast
    qed
  qed
qed

lemma replace_from_present:
  assumes "old \<noteq> []" "sublist old s"
  shows "sublist new (replace_from old new s)"
proof -
  from replace_from_first [OF assms] obtain u t where
    "replace_from old new s = u @ new @ replace_from old new t" by blast
  then show ?thesis by simp
qed


lemma count_occ_zero: "count_occ s p = 0 \<longleftrightarrow> \<not> sublist p s"
  by (induction s) (auto simp: sublist_Cons_right)

lemma prefix_before:
  assumes "\<not> starts_in q (tl p)" "prefix p ((c # x) @ q @ y)"
  shows "prefix p (c # x)"
proof -
  from assms(2) consider "prefix p (c # x)" | us where "p = (c # x) @ us" "prefix us (q @ y)"
    unfolding prefix_append by blast
  then show ?thesis
  proof cases
    case 1
    then show ?thesis .
  next
    case 2
    show ?thesis
    proof (cases "us = []")
      case True
      with 2 show ?thesis by simp
    next
      case False
      from 2(2) have "prefix us q \<or> prefix q us"
        unfolding prefix_append by auto
      moreover have "suffix us (tl p)" using 2(1) by (simp add: suffix_def)
      ultimately have "starts_in q (tl p)"
        unfolding starts_in_iff using False by blast
      with assms(1) show ?thesis by simp
    qed
  qed
qed

lemma count_before:
  assumes "\<not> starts_in q (tl p)" "p \<noteq> []"
  shows "count_occ (x @ q @ y) p = count_occ x p + count_occ (q @ y) p"
proof (induction x)
  case Nil
  with assms(2) show ?case by simp
next
  case (Cons c x)
  have "prefix p ((c # x) @ q @ y) \<longleftrightarrow> prefix p (c # x)"
    using prefix_before [OF assms(1)] by (metis prefix_prefix)
  with Cons.IH show ?case by simp
qed

lemma count_through:
  "\<not> starts_in p t \<Longrightarrow> count_occ (t @ y) p = count_occ y p"
proof (induction t)
  case Nil
  then show ?case by simp
next
  case (Cons c t)
  have "\<not> prefix p ((c # t) @ y)"
  proof
    assume "prefix p ((c # t) @ y)"
    then have "prefix p (c # t) \<or> prefix (c # t) p"
      unfolding prefix_append by auto
    with Cons.prems show False by simp
  qed
  with Cons show ?case by simp
qed

lemma count_isolated:
  assumes "\<not> clash p q" "p \<noteq> []"
  shows "count_occ (x @ q @ y) p = count_occ x p + count_occ y p"
  using assms count_before [of q p x y] count_through [of p q y]
  by (simp add: clash_def)

lemma count_self:
  assumes "q \<noteq> []" "\<not> starts_in q (tl q)"
  shows "count_occ (x @ q @ y) q = count_occ x q + 1 + count_occ y q"
proof -
  obtain a q' where q: "q = a # q'" using assms(1) by (cases q) auto
  have "count_occ (q @ y) q = 1 + count_occ (q' @ y) q" by (simp add: q)
  also have "count_occ (q' @ y) q = count_occ y q"
    using assms(2) count_through [of q q' y] by (simp add: q)
  finally show ?thesis using count_before [OF assms(2) assms(1), of x y] by simp
qed

lemma replace_from_count_other:
  assumes "old \<noteq> []" "p \<noteq> []" "\<not> clash p old" "\<not> clash p new"
  shows "count_occ (replace_from old new s) p = count_occ s p"
proof (induction s rule: length_induct)
  case (1 s)
  show ?case
  proof (cases "sublist old s")
    case False
    then show ?thesis by (simp add: replace_from_absent)
  next
    case True
    from replace_from_first [OF assms(1) True] obtain u t where
      ut: "s = u @ old @ t" "replace_from old new s = u @ new @ replace_from old new t"
      by blast
    have len: "length t < length s" using ut(1) assms(1) by (cases old) auto
    with "1.IH" have "count_occ (replace_from old new t) p = count_occ t p" by blast
    then show ?thesis
      unfolding ut(2) by (subst ut(1)) (simp add: count_isolated assms)
  qed
qed

lemma replace_from_count_new:
  assumes "old \<noteq> []" "new \<noteq> []" "\<not> starts_in old (tl old)" "\<not> starts_in new (tl new)"
    and "\<not> clash new old"
  shows "count_occ (replace_from old new s) new = count_occ s old + count_occ s new"
proof (induction s rule: length_induct)
  case (1 s)
  show ?case
  proof (cases "sublist old s")
    case False
    then show ?thesis by (simp add: replace_from_absent count_occ_zero)
  next
    case True
    from replace_from_first [OF assms(1) True] obtain u t where
      ut: "s = u @ old @ t" "\<not> sublist old u"
          "replace_from old new s = u @ new @ replace_from old new t"
      by blast
    have len: "length t < length s" using ut(1) assms(1) by (cases old) auto
    with "1.IH" have ih: "count_occ (replace_from old new t) new = count_occ t old + count_occ t new"
      by blast
    have u0: "count_occ u old = 0" using ut(2) by (simp add: count_occ_zero)
    have a: "count_occ s old = 1 + count_occ t old"
      by (subst ut(1)) (simp add: count_self assms u0)
    have b: "count_occ s new = count_occ u new + count_occ t new"
      by (subst ut(1)) (simp add: count_isolated assms)
    have c: "count_occ (replace_from old new s) new
               = count_occ u new + 1 + count_occ (replace_from old new t) new"
      unfolding ut(3) by (simp add: count_self assms)
    from a b c ih show ?thesis by simp
  qed
qed

lemma clash_commute:
  assumes "p \<noteq> []" "q \<noteq> []"
  shows "clash p q = clash q p"
proof -
  obtain a p' where p: "p = a # p'" using assms(1) by (cases p) auto
  obtain b q' where q: "q = b # q'" using assms(2) by (cases q) auto
  show ?thesis unfolding clash_def p q by auto
qed

lemma patched_refl: "patched R s s"
  by (induction s) (auto intro: patched.intros)

lemma patched_mono: "patched R s t \<Longrightarrow> R \<subseteq> R' \<Longrightarrow> patched R' s t"
  by (induction rule: patched.induct) (auto intro: patched.intros)

lemma patched_append:
  "patched R a b \<Longrightarrow> patched R c d \<Longrightarrow> patched R (a @ c) (b @ d)"
proof (induction rule: patched.induct)
  case patched_Nil
  then show ?case by simp
next
  case (patched_Keep s t c)
  then show ?case by (auto intro: patched.intros)
next
  case (patched_Subst old new s t)
  then have "patched R (old @ (s @ c)) (new @ (t @ d))"
    by (auto intro: patched.intros)
  then show ?case by simp
qed

lemma patched_replace_from: "patched {(old, new)} s (replace_from old new s)"
proof (induction old new s rule: replace_from.induct)
  case (1 old new)
  then show ?case by (simp add: patched.intros)
next
  case (2 old new c cs)
  show ?case
  proof (cases "old \<noteq> [] \<and> prefix old (c # cs)")
    case True
    then obtain t where t: "c # cs = old @ t" by (auto simp: prefix_def)
    then have d: "drop (length old) (c # cs) = t" by (metis append_eq_conv_conj)
    from 2(1) [OF True] d have "patched {(old, new)} t (replace_from old new t)" by simp
    then have "patched {(old, new)} (old @ t) (new @ replace_from old new t)"
      by (auto intro: patched.intros)
    moreover have "replace_from old new (c # cs) = new @ replace_from old new t"
      using True d by simp
    ultimately show ?thesis using t by simp
  next
    case False
    with 2(2) show ?thesis by (auto intro: patched.intros)
  qed
qed

lemma patched_split:
  assumes "patched R s t" "\<forall>(old, new) \<in> R. \<not> starts_in p (tl new)" "t = x @ p @ y"
  shows "\<exists>s1 s2. s = s1 @ s2 \<and> patched R s1 x \<and> patched R s2 (p @ y)"
  using assms(1,3)
proof (induction arbitrary: x rule: patched.induct)
  case patched_Nil
  then show ?case by (auto intro: patched.intros)
next
  case (patched_Keep s t c)
  show ?case
  proof (cases x)
    case Nil
    with patched_Keep.prems have "c # t = p @ y" by simp
    moreover have "patched R (c # s) (c # t)" using patched_Keep.hyps by (rule patched.intros)
    ultimately have "c # s = [] @ (c # s) \<and> patched R [] x \<and> patched R (c # s) (p @ y)"
      using Nil by (simp add: patched.intros)
    then show ?thesis by blast
  next
    case (Cons a x')
    with patched_Keep.prems have "a = c" "t = x' @ p @ y" by simp_all
    from patched_Keep.IH [OF this(2)] obtain s1 s2 where
      "s = s1 @ s2" "patched R s1 x'" "patched R s2 (p @ y)" by blast
    then have "c # s = (c # s1) @ s2 \<and> patched R (c # s1) x \<and> patched R s2 (p @ y)"
      using Cons \<open>a = c\<close> by (simp add: patched.intros)
    then show ?thesis by blast
  qed
next
  case (patched_Subst old new s t)
  from patched_Subst.prems have "new @ t = x @ (p @ y)" by simp
  then consider z where "new = x @ z" "z @ t = p @ y" | z where "x = new @ z" "t = z @ p @ y"
    by (auto simp: append_eq_append_conv2)
  then show ?case
  proof cases
    case 1
    show ?thesis
    proof (cases "x = []")
      case True
      have "patched R (old @ s) (new @ t)"
        using patched_Subst.hyps(1,2) by (rule patched.intros)
      then have "old @ s = [] @ (old @ s) \<and> patched R [] x \<and> patched R (old @ s) (p @ y)"
        using True patched_Subst.prems by (simp add: patched.intros)
      then show ?thesis by blast
    next
      case False
      show ?thesis
      proof (cases "z = []")
        case True
        with 1 have "x = new @ []" "t = [] @ p @ y" by simp_all
        from patched_Subst.IH [OF this(2)] obtain s1 s2 where
          "s = s1 @ s2" "patched R s1 []" "patched R s2 (p @ y)" by blast
        moreover from patched.intros(3) [OF patched_Subst.hyps(1) \<open>patched R s1 []\<close>]
        have "patched R (old @ s1) x" using \<open>x = new @ []\<close> by simp
        ultimately have "old @ s = (old @ s1) @ s2 \<and> patched R (old @ s1) x \<and> patched R s2 (p @ y)"
          by simp
        then show ?thesis by blast
      next
        case nz: False
        from 1(2) have "prefix z (p @ y)" by (metis prefixI)
        then have "prefix z p \<or> prefix p z" unfolding prefix_append by auto
        moreover have "suffix z (tl new)" using 1(1) False by (cases x) (auto simp: suffix_def)
        ultimately have "starts_in p (tl new)" unfolding starts_in_iff using nz by blast
        with assms(2) patched_Subst.hyps(1) show ?thesis by blast
      qed
    qed
  next
    case 2
    from patched_Subst.IH [OF 2(2)] obtain s1 s2 where
      "s = s1 @ s2" "patched R s1 z" "patched R s2 (p @ y)" by blast
    then have "old @ s = (old @ s1) @ s2 \<and> patched R (old @ s1) x \<and> patched R s2 (p @ y)"
      using 2(1) patched_Subst.hyps(1) by (auto intro: patched.intros)
    then show ?thesis by blast
  qed
qed

lemma patched_Cons_cases:
  "patched R s (c # t) \<Longrightarrow>
     (\<exists>s0. s = c # s0 \<and> patched R s0 t)
     \<or> (\<exists>old new s0 t0. (old, new) \<in> R \<and> s = old @ s0 \<and> c # t = new @ t0 \<and> patched R s0 t0)"
  by (erule patched.cases) auto

lemma patched_peel:
  assumes "\<forall>(old, new) \<in> R. new \<noteq> [] \<and> \<not> starts_in new p"
  shows "suffix o' p \<Longrightarrow> patched R s (o' @ y) \<Longrightarrow> \<exists>s'. s = o' @ s' \<and> patched R s' y"
proof (induction o' arbitrary: s)
  case Nil
  then show ?case by simp
next
  case (Cons c o')
  have so: "suffix o' p" using Cons.prems(1) by (rule suffix_ConsD)
  from Cons.prems(2) have "patched R s (c # (o' @ y))" by simp
  from patched_Cons_cases [OF this] consider
    s0 where "s = c # s0" "patched R s0 (o' @ y)"
    | old new s0 t0 where "(old, new) \<in> R" "s = old @ s0" "c # (o' @ y) = new @ t0"
    by blast
  then show ?case
  proof cases
    case 1
    from Cons.IH [OF so 1(2)] obtain s' where "s0 = o' @ s'" "patched R s' y" by blast
    with 1(1) show ?thesis by simp
  next
    case 2
    with assms have nn: "new \<noteq> []" and ns: "\<not> starts_in new p" by auto
    from 2(3) have "prefix new ((c # o') @ y)" by (metis append_Cons prefixI)
    then have "prefix new (c # o') \<or> prefix (c # o') new" unfolding prefix_append by auto
    with Cons.prems(1) nn have "starts_in new p" unfolding starts_in_iff by blast
    with ns show ?thesis by simp
  qed
qed

lemma patched_then_replace:
  assumes "p \<noteq> []" "\<forall>(old, new) \<in> R. new \<noteq> [] \<and> \<not> clash new p"
  shows "patched R s t \<Longrightarrow> patched (insert (p, n) R) s (replace_from p n t)"
proof (induction t arbitrary: s rule: length_induct)
  case (1 t)
  let ?R' = "insert (p, n) R"
  show ?case
  proof (cases "sublist p t")
    case False
    then have "replace_from p n t = t" by (rule replace_from_absent)
    with "1.prems" show ?thesis by (auto intro: patched_mono)
  next
    case True
    from replace_from_first [OF assms(1) True] obtain x y where
      xy: "t = x @ p @ y" "replace_from p n t = x @ n @ replace_from p n y"
      by blast
    have len: "length y < length t" using xy(1) assms(1) by (cases p) auto
    have c1: "\<forall>(old, new) \<in> R. \<not> starts_in p (tl new)"
      using assms(2) by (auto simp: clash_def)
    have c2: "\<forall>(old, new) \<in> R. new \<noteq> [] \<and> \<not> starts_in new p"
      using assms(2) by (auto simp: clash_def)
    from patched_split [OF "1.prems" c1 xy(1)] obtain s1 s2 where
      s12: "s = s1 @ s2" "patched R s1 x" "patched R s2 (p @ y)" by blast
    from patched_peel [OF c2 suffix_order.refl s12(3)] obtain s' where
      s': "s2 = p @ s'" "patched R s' y" by blast
    from "1.IH" len s'(2) have "patched ?R' s' (replace_from p n y)" by blast
    then have "patched ?R' (p @ s') (n @ replace_from p n y)"
      by (auto intro: patched.intros)
    moreover have "patched ?R' s1 x" using s12(2) by (auto intro: patched_mono)
    ultimately have "patched ?R' (s1 @ p @ s') (x @ n @ replace_from p n y)"
      by (rule patched_append [rotated])
    then show ?thesis using s12(1) s'(1) xy(2) by simp
  qed
qed

lemma replace_from_count_frame:
  assumes "old \<noteq> []"
    and "\<And>x y. count_occ (x @ old @ y) p = count_occ x p + count_occ y p"
    and "\<And>x y. count_occ (x @ new @ y) p = count_occ x p + count_occ y p"
  shows "count_occ (replace_from old new s) p = count_occ s p"
proof (induction s rule: length_induct)
  case (1 s)
  show ?case
  proof (cases "sublist old s")
    case False
    then show ?thesis by (simp add: replace_from_absent)
  next
    case True
    from replace_from_first [OF assms(1) True] obtain u t where
      ut: "s = u @ old @ t" "replace_from old new s = u @ new @ replace_from old new t"
      by blast
    have len: "length t < length s" using ut(1) assms(1) by (cases old) auto
    with "1.IH" have "count_occ (replace_from old new t) p = count_occ t p" by blast
    then show ?thesis
      unfolding ut(2) by (subst ut(1)) (simp add: assms(2,3))
  qed
qed

section \<open>What each rule does to the text\<close>

lemma str_replace_nonempty: "old \<noteq> [] \<Longrightarrow> str_replace s old new = replace_from old new s"
  by (simp add: str_replace_def)

lemma original_strings:
  "original_string (codigo_prestador p) = cod_old"
  "original_string (modalidad_pago p) = mod_old"
  "original_string (cobertura p) = cob_old"
  "original_string (numero_contrato p) = con_old"
  "original_string (numero_poliza p) = pol_old"
  "original_string (line_counter_numeric p) = anchor"
  by (simp_all add: codigo_prestador_def modalidad_pago_def cobertura_def numero_contrato_def
      numero_poliza_def line_counter_numeric_def cod_old_def mod_old_def cob_old_def con_old_def
      pol_old_def anchor_def)

lemma parents:
  "parent (codigo_prestador p) = content p"
  "parent (modalidad_pago p) = content p"
  "parent (cobertura p) = content p"
  "parent (numero_contrato p) = content p"
  "parent (numero_poliza p) = content p"
  "parent (line_counter_numeric p) = content p"
  "parent (evento_pbs p) = content p"
  "parent (evento_no_pbs p) = content p"
  "original_string (evento_pbs p) = ''Evento PBS''"
  "original_string (evento_no_pbs p) = ''Evento NO PBS''"
  by (simp_all add: codigo_prestador_def modalidad_pago_def cobertura_def numero_contrato_def
      numero_poliza_def line_counter_numeric_def evento_pbs_def evento_no_pbs_def)

lemma olds_nonempty:
  "cod_old \<noteq> []" "mod_old \<noteq> []" "cob_old \<noteq> []" "con_old \<noteq> []" "pol_old \<noteq> []" "anchor \<noteq> []"
  by (simp_all add: cod_old_def mod_old_def cob_old_def con_old_def pol_old_def anchor_def)

lemma cod_new_eq:
  "str_replace cod_old ''<Value>Array</Value>'' ''<Value>0800185010</Value>'' = cod_new"
  by (simp add: str_replace_def cod_old_def cod_new_def)

lemma mod_new_eq:
  \<open>str_replace mod_old ''<Value schemeID="Array" schemeName="salud_modalidad_pago.gc"></Value>''
     ''<Value schemeID="04" schemeName="salud_modalidad_pago.gc">Pago por evento</Value>'' = mod_new\<close>
  by (simp add: str_replace_def mod_old_def mod_new_def)

lemma cob_new_no_pbs_eq:
  \<open>str_replace cob_old ''<Value schemeID="Array" schemeName="salud_cobertura.gc"></Value>''
     (''<Value schemeID="02" schemeName="salud_cobertura.gc">Presupuesto m''
        @ [CHR 0xC3, CHR 0xA1] @ ''ximo</Value>'') = cob_new_no_pbs\<close>
  by (simp add: str_replace_def cob_old_def cob_new_no_pbs_def)

lemma cob_new_pbs_eq:
  \<open>str_replace cob_old ''<Value schemeID="Array" schemeName="salud_cobertura.gc"></Value>''
     ''<Value schemeID="01" schemeName="salud_cobertura.gc">Plan de beneficios en salud financiado con UPC</Value>''
     = cob_new_pbs\<close>
  by (simp add: str_replace_def cob_old_def cob_new_pbs_def)

lemma con_new_sub_eq:
  "str_replace con_old ''<Value>Array</Value>'' ''<Value>10787</Value>'' = con_new_sub"
  by (simp add: str_replace_def con_old_def con_new_sub_def)

lemma con_new_con_eq:
  "str_replace con_old ''<Value>Array</Value>'' ''<Value>3672</Value>'' = con_new_con"
  by (simp add: str_replace_def con_old_def con_new_con_def)

lemma pol_new_eq:
  "str_replace pol_old ''<Value>Array</Value>'' ''<Value>NA</Value>'' = pol_new"
  by (simp add: str_replace_def pol_old_def pol_new_def)

lemma content_logic_codigo_prestador:
  "content (logic_codigo_prestador p) = replace_from cod_old cod_new (content p)"
  "log (logic_codigo_prestador p) = log p"
  unfolding logic_codigo_prestador_def is_present_def update_content_def getattr.simps original_strings
    parents cod_new_eq str_contains_sublist 
  by (simp_all add: str_replace_nonempty olds_nonempty replace_from_absent)

lemma content_logic_modalidad_pago:
  "content (logic_modalidad_pago p) = replace_from mod_old mod_new (content p)"
  "log (logic_modalidad_pago p) = log p"
  unfolding logic_modalidad_pago_def is_present_def update_content_def getattr.simps original_strings
    parents mod_new_eq str_contains_sublist 
  by (simp_all add: str_replace_nonempty olds_nonempty replace_from_absent)

lemma content_logic_numero_poliza:
  "content (logic_numero_poliza p) = replace_from pol_old pol_new (content p)"
  "log (logic_numero_poliza p) = log p"
  unfolding logic_numero_poliza_def is_present_def update_content_def getattr.simps original_strings
    parents pol_new_eq str_contains_sublist 
  by (simp_all add: str_replace_nonempty olds_nonempty replace_from_absent)

lemma content_logic_cobertura:
  "content (logic_cobertura p) =
     (if sublist ''Evento NO PBS'' (content p) then replace_from cob_old cob_new_no_pbs (content p)
      else if sublist ''Evento PBS'' (content p) then replace_from cob_old cob_new_pbs (content p)
      else content p)"
  "log (logic_cobertura p) = log p"
  unfolding logic_cobertura_def is_present_def update_content_def getattr.simps original_strings
    parents cob_new_no_pbs_eq cob_new_pbs_eq str_contains_sublist 
  by (simp_all add: str_replace_nonempty olds_nonempty replace_from_absent)

lemma content_logic_numero_contrato:
  "content (logic_numero_contrato p) =
     (if sublist ''Subsidiado'' (content p) then replace_from con_old con_new_sub (content p)
      else if sublist ''Contributivo'' (content p) then replace_from con_old con_new_con (content p)
      else content p)"
  "log (logic_numero_contrato p) = log p"
  unfolding logic_numero_contrato_def is_present_def update_content_def getattr.simps original_strings
    parents con_new_sub_eq con_new_con_eq str_contains_sublist is_subsidiado_present_def is_contributivo_present_def
  by (simp_all add: str_replace_nonempty olds_nonempty replace_from_absent)

lemma new_invoice_period_pieces:
  "new_invoice_period anchor d = (anchor @ period_head) @ d @ period_mid @ d @ period_tail"
  by (simp add: new_invoice_period_def period_head_def period_mid_def period_tail_def)

lemma match_item_bound:
  "match_item decimal i s = Some n \<Longrightarrow> 0 < n \<and> n \<le> length s"
  by (induction decimal i s rule: match_item.induct)
     (auto simp: utf8_width_def split: if_splits)

lemma match_here_bound:
  "match_here decimal pat s = Some n \<Longrightarrow> n \<le> length s"
proof (induction pat arbitrary: s n)
  case Nil
  then show ?case by simp
next
  case (Cons i pat)
  from Cons.prems obtain a b where
    ab: "match_item decimal i s = Some a" "match_here decimal pat (drop a s) = Some b" "n = a + b"
    by (auto split: option.splits)
  from match_item_bound [OF ab(1)] Cons.IH [OF ab(2)] ab(3) show ?case by auto
qed

lemma lead_byte_high: "1 < utf8_width c \<Longrightarrow> 0x80 \<le> (of_char c :: nat)"
  by (simp add: utf8_width_def split: if_splits)

lemma match_item_date_bytes:
  assumes "match_item decimal i s = Some n" "i = Digit \<or> i = Lit (CHR ''-'')"
  shows "\<forall>c \<in> set (take n s). date_char c"
proof (cases s)
  case Nil
  with assms(1) show ?thesis by simp
next
  case (Cons c cs)
  show ?thesis
  proof (cases "i = Digit \<and> c \<notin> set ''0123456789''")
    case False
    with assms Cons show ?thesis by (auto simp: date_char_def split: if_splits)
  next
    case True
    with assms(1) Cons have w: "n = utf8_width c" "1 < utf8_width c"
      "list_all continuation (take (utf8_width c - 1) cs)"
      by (auto split: if_splits)
    have "take n s = c # take (utf8_width c - 1) cs"
      using w(1,2) Cons by (cases "utf8_width c") simp_all
    moreover have "date_char c" using lead_byte_high [OF w(2)] by (simp add: date_char_def)
    moreover have "\<forall>x \<in> set (take (utf8_width c - 1) cs). date_char x"
      using w(3) by (auto simp: list_all_iff continuation_def date_char_def)
    ultimately show ?thesis by simp
  qed
qed

lemma match_here_date_bytes:
  "match_here decimal pat s = Some n \<Longrightarrow> \<forall>i \<in> set pat. i = Digit \<or> i = Lit (CHR ''-'')
     \<Longrightarrow> \<forall>c \<in> set (take n s). date_char c"
proof (induction pat arbitrary: s n)
  case Nil
  then show ?case by simp
next
  case (Cons i pat)
  from Cons.prems(1) obtain a b where
    ab: "match_item decimal i s = Some a" "match_here decimal pat (drop a s) = Some b" "n = a + b"
    by (auto split: option.splits)
  have 1: "\<forall>c \<in> set (take a s). date_char c"
    using match_item_date_bytes [OF ab(1)] Cons.prems(2) by simp
  have 2: "\<forall>c \<in> set (take b (drop a s)). date_char c"
    using Cons.IH [OF ab(2)] Cons.prems(2) by simp
  have "take n s = take a s @ take b (drop a s)" unfolding ab(3) by (rule take_add)
  with 1 2 show ?case by auto
qed

lemma match_here_literals:
  "match_here decimal (map Lit l @ pat) s = Some n \<Longrightarrow>
     \<exists>m. prefix l s \<and> match_here decimal pat (drop (length l) s) = Some m \<and> n = length l + m"
proof (induction l arbitrary: s n)
  case Nil
  then show ?case by simp
next
  case (Cons a l)
  from Cons.prems obtain c cs where s: "s = c # cs" by (cases s) auto
  with Cons.prems have ac: "a = c"
    and "\<exists>k. match_here decimal (map Lit l @ pat) cs = Some k \<and> n = 1 + k"
    by (auto split: if_splits option.splits)
  then obtain k where k: "match_here decimal (map Lit l @ pat) cs = Some k" "n = 1 + k" by blast
  from Cons.IH [OF k(1)] obtain m where
    "prefix l cs" "match_here decimal pat (drop (length l) cs) = Some m" "k = length l + m" by blast
  with s ac k(2) show ?case by simp
qed

lemma match_here_positive:
  "match_here decimal (i # pat) s = Some n \<Longrightarrow> 0 < n"
  by (auto split: option.splits dest: match_item_bound)

lemma re_search_Some:
  "re_search decimal pat s = Some m \<Longrightarrow>
     \<exists>pre post. s = pre @ m @ post \<and> match_here decimal pat (m @ post) = Some (length m)
       \<and> (\<forall>k < length pre. match_here decimal pat (drop k s) = None)"
proof (induction s arbitrary: m)
  case Nil
  then have "m = []" "match_here decimal pat [] \<noteq> None" by (auto split: option.splits)
  moreover from this(2) obtain n where n: "match_here decimal pat [] = Some n" by auto
  moreover from match_here_bound [OF n] have "n = 0" by simp
  ultimately have "[] = [] @ m @ [] \<and> match_here decimal pat (m @ []) = Some (length m)
       \<and> (\<forall>k < length ([] :: string). match_here decimal pat (drop k []) = None)" by simp
  then show ?case by blast
next
  case (Cons c cs)
  show ?case
  proof (cases "match_here decimal pat (c # cs)")
    case (Some n)
    with Cons.prems have m: "m = take n (c # cs)" by simp
    from match_here_bound [OF Some] have len: "length m = n" using m by simp
    have "c # cs = [] @ m @ drop n (c # cs)" using m by simp
    moreover have "match_here decimal pat (m @ drop n (c # cs)) = Some (length m)"
      using Some m len by simp
    ultimately show ?thesis by (metis length_0_conv less_nat_zero_code list.size(3))
  next
    case None
    with Cons.prems have "re_search decimal pat cs = Some m" by simp
    from Cons.IH [OF this] obtain pre post where
      pp: "cs = pre @ m @ post" "match_here decimal pat (m @ post) = Some (length m)"
          "\<forall>k < length pre. match_here decimal pat (drop k cs) = None" by blast
    have "\<forall>k < length (c # pre). match_here decimal pat (drop k (c # cs)) = None"
    proof (intro allI impI)
      fix k assume k: "k < length (c # pre)"
      show "match_here decimal pat (drop k (c # cs)) = None"
      proof (cases k)
        case 0
        with None show ?thesis by simp
      next
        case (Suc j)
        with k pp(3) show ?thesis by simp
      qed
    qed
    moreover have "c # cs = (c # pre) @ m @ post" using pp(1) by simp
    ultimately show ?thesis using pp(2) by blast
  qed
qed

lemma re_search_None:
  "re_search decimal pat s = None \<Longrightarrow> match_here decimal pat (drop k s) = None"
proof (induction s arbitrary: k)
  case Nil
  then show ?case by (simp split: option.splits)
next
  case (Cons c cs)
  then show ?case by (cases k) (auto split: option.splits)
qed

lemma re_search_found:
  "match_here decimal pat (drop k s) \<noteq> None \<Longrightarrow> re_search decimal pat s \<noteq> None"
  using re_search_None [of decimal pat s k] by (cases "re_search decimal pat s") auto

lemma issue_date_Some:
  assumes "issue_date decimal p = Some d"
  shows "\<exists>pre post. content p = pre @ ''FecFac: '' @ d @ post
           \<and> match_here decimal issue_date_pattern (''FecFac: '' @ d @ post) = Some (8 + length d)
           \<and> (\<forall>k < length pre. match_here decimal issue_date_pattern (drop k (content p)) = None)"
    and "d \<noteq> []" and "\<forall>c \<in> set d. date_char c"
proof -
  let ?items = "[Digit, Digit, Digit, Digit, Lit (CHR ''-''), Digit, Digit, Lit (CHR ''-''), Digit, Digit]"
  from assms obtain m where
    m: "re_search decimal issue_date_pattern (content p) = Some m" "d = drop 8 m"
    by (auto simp: issue_date_def)
  from re_search_Some [OF m(1)] obtain pre post where
    pp: "content p = pre @ m @ post"
        "match_here decimal issue_date_pattern (m @ post) = Some (length m)"
        "\<forall>k < length pre. match_here decimal issue_date_pattern (drop k (content p)) = None"
    by blast
  from pp(2) have "match_here decimal (map Lit ''FecFac: '' @ ?items) (m @ post) = Some (length m)"
    by (simp only: issue_date_pattern_def)
  from match_here_literals [OF this] obtain k where
    k: "prefix ''FecFac: '' (m @ post)"
       "match_here decimal ?items (drop (length ''FecFac: '') (m @ post)) = Some k"
       "length m = length ''FecFac: '' + k"
    by blast
  from k(3) have lm: "8 \<le> length m" "length m = 8 + k" by simp_all
  have "prefix m (m @ post)" by simp
  from k(1) this have pm: "prefix ''FecFac: '' m"
    by (rule prefix_length_prefix) (use lm(1) in simp)
  then have md: "m = ''FecFac: '' @ d" using m(2) by (auto simp: prefix_def)
  have kd: "k = length d" using lm(2) m(2) by simp
  from match_here_positive k(2) have "0 < k" by blast
  with kd show "d \<noteq> []" by simp
  have e: "drop (length ''FecFac: '') (m @ post) = d @ post" using md by simp
  have "match_here decimal ?items (d @ post) = Some (length d)"
    using k(2) unfolding e kd .
  from match_here_date_bytes [OF this] show "\<forall>c \<in> set d. date_char c" by simp
  from pp md have "content p = pre @ ''FecFac: '' @ d @ post
           \<and> match_here decimal issue_date_pattern (''FecFac: '' @ d @ post) = Some (8 + length d)
           \<and> (\<forall>k < length pre. match_here decimal issue_date_pattern (drop k (content p)) = None)"
    by simp
  then show "\<exists>pre post. content p = pre @ ''FecFac: '' @ d @ post
           \<and> match_here decimal issue_date_pattern (''FecFac: '' @ d @ post) = Some (8 + length d)
           \<and> (\<forall>k < length pre. match_here decimal issue_date_pattern (drop k (content p)) = None)"
    by blast
qed

lemma content_logic_invoice_period:
  "content (logic_invoice_period decimal p) =
     (if sublist period_tag (content p) \<or> \<not> sublist anchor (content p) then content p
      else case issue_date decimal p of
             None \<Rightarrow> content p
           | Some d \<Rightarrow> replace_from anchor (new_invoice_period anchor d) (content p))"
proof -
  have "d \<noteq> []" if "issue_date decimal p = Some d" for d
    using issue_date_Some [OF that] by auto
  then show ?thesis
    unfolding logic_invoice_period_def is_present_def update_content_def getattr.simps
      original_strings parents is_invoice_period_present_def str_contains_sublist
      period_tag_def [symmetric]
    by (auto simp: str_replace_nonempty olds_nonempty split: option.splits)
qed

lemma log_logic_invoice_period:
  "log (logic_invoice_period decimal p) =
     (if sublist period_tag (content p) then log p
      else if \<not> sublist anchor (content p) then log p @ [No_LineCountNumeric]
      else case issue_date decimal p of None \<Rightarrow> log p @ [No_IssueDate] | Some d \<Rightarrow> log p)"
proof -
  have "d \<noteq> []" if "issue_date decimal p = Some d" for d
    using issue_date_Some [OF that] by auto
  then show ?thesis
    unfolding logic_invoice_period_def is_present_def update_content_def getattr.simps
      original_strings parents is_invoice_period_present_def str_contains_sublist
      period_tag_def [symmetric]
    by (auto split: option.splits)
qed

section \<open>The period synthesizer\<close>






section \<open>The cached text and the files\<close>

lemma get_content_cached:
  "cached i = Some c \<Longrightarrow> get_content w i = (Inr c, w, i)"
  by (simp add: get_content_def)

lemma get_content_times_cached:
  "cached i = Some c \<Longrightarrow> get_content_times n w i = (replicate n (Inr c), w, i)"
  by (induction n) (simp_all add: get_content_cached)

lemma get_content_first:
  assumes "cached i = None" "files w (input_path i) = Some b" "utf8_valid b"
  shows "get_content w i =
           (Inr (universal_newlines b), w\<lparr>reads := reads w @ [input_path i]\<rparr>,
            i\<lparr>cached := Some (universal_newlines b)\<rparr>)"
  using assms by (simp add: get_content_def read_text_def)

text \<open>
  The literal-text engine reads its file once: of any number of reads of \<open>content\<close> in a
  row, the first reads the file and all give the same text.
\<close>

lemma content_read_once:
  assumes "cached i = None" "files w (input_path i) = Some b" "utf8_valid b"
  shows "get_content_times (Suc n) w i =
           (replicate (Suc n) (Inr (universal_newlines b)),
            w\<lparr>reads := reads w @ [input_path i]\<rparr>,
            i\<lparr>cached := Some (universal_newlines b)\<rparr>)"
  using assms by (simp add: get_content_first get_content_times_cached)

lemma soup_once:
  assumes "tree_content i = None" "files w (tree_input_path i) = Some b" "utf8_valid b"
    and "lxml_xml (universal_newlines b) = Some s"
  shows "soup lxml_xml lxml w i =
           (Inr s, w\<lparr>reads := reads w @ [tree_input_path i]\<rparr>, i\<lparr>tree_soup := Some s\<rparr>)"
  using assms by (simp add: soup_def open_and_parse_def read_text_def)

text \<open>
  Claim C7. The claim is that the text of the file is read once for every processor, a later
  access giving the cached value. The method \<open>soup\<close> of parser.py tests \<open>self._content\<close>,
  which nothing assigns, so that each call of it reads and parses the file again: after
  two calls the file has been read twice.
\<close>

theorem soup_reads_file_again:
  assumes "tree_content i = None" "files w (tree_input_path i) = Some b" "utf8_valid b"
    and "lxml_xml (universal_newlines b) = Some s"
    and "soup lxml_xml lxml w i = (r1, w1, i1)" "soup lxml_xml lxml w1 i1 = (r2, w2, i2)"
  shows "reads w2 = reads w @ [tree_input_path i, tree_input_path i]
         \<and> r1 = Inr s \<and> r2 = Inr s \<and> tree_content i2 = None"
proof -
  from soup_once [where lxml_xml = lxml_xml and lxml = lxml, OF assms(1-4)] assms(5)
  have 1: "r1 = Inr s" "w1 = w\<lparr>reads := reads w @ [tree_input_path i]\<rparr>"
    "i1 = i\<lparr>tree_soup := Some s\<rparr>" by simp_all
  have "tree_content i1 = None" "files w1 (tree_input_path i1) = Some b"
    using 1 assms(1,2) by simp_all
  from soup_once [where lxml_xml = lxml_xml and lxml = lxml, OF this assms(3,4)] assms(6)
  have 2: "r2 = Inr s" "w2 = w1\<lparr>reads := reads w1 @ [tree_input_path i1]\<rparr>"
    "i2 = i1\<lparr>tree_soup := Some s\<rparr>" by simp_all
  from 1 2 assms(1) show ?thesis by simp
qed

theorem soup_reads_file_again_witness:
  "reads (fst (snd (soup Some Some
      (fst (snd (soup Some Some
         \<lparr>files = (\<lambda>q. Some ''<a/>''), reads = [], warnings = []\<rparr>
         (tree_init \<lparr>parent_parts = [''tmp''], name = ''f.xml''\<rparr>))))
      (snd (snd (soup Some Some
         \<lparr>files = (\<lambda>q. Some ''<a/>''), reads = [], warnings = []\<rparr>
         (tree_init \<lparr>parent_parts = [''tmp''], name = ''f.xml''\<rparr>)))))))
   = [\<lparr>parent_parts = [''tmp''], name = ''f.xml''\<rparr>, \<lparr>parent_parts = [''tmp''], name = ''f.xml''\<rparr>]"
proof -
  let ?w = "\<lparr>files = (\<lambda>q. Some ''<a/>''), reads = [], warnings = []\<rparr>"
  let ?q = "\<lparr>parent_parts = [''tmp''], name = ''f.xml''\<rparr>"
  let ?i = "tree_init ?q :: string tree_processor"
  obtain r1 w1 i1 where 1: "soup Some Some ?w ?i = (r1, w1, i1)" by (metis prod_cases3)
  obtain r2 w2 i2 where 2: "soup Some Some w1 i1 = (r2, w2, i2)" by (metis prod_cases3)
  have "tree_content ?i = None" "files ?w (tree_input_path ?i) = Some ''<a/>''"
    "utf8_valid ''<a/>''" "Some (universal_newlines ''<a/>'') = Some ''<a/>''"
    by (simp_all add: tree_init_def)
  from soup_reads_file_again [where lxml_xml = Some and lxml = Some, OF this 1 2] have "reads w2 = [?q, ?q]"
    by (simp add: tree_init_def)
  with 1 2 show ?thesis by simp
qed

lemma stem_suffix_of: "stem q @ suffix_of q = name q"
  by (simp add: stem_def suffix_of_def Let_def)

lemma with_stem_own_stem:
  "valid_name (name q) \<Longrightarrow> with_stem q (stem q) = Inr q"
  by (simp add: with_stem_def with_name_def stem_suffix_of valid_name_def)

lemma get_content_files:
  "get_content w i = (r, w', i') \<Longrightarrow> files w' = files w \<and> input_path i' = input_path i"
  by (auto simp: get_content_def read_text_def split: option.splits if_splits)

text \<open>
  Claim C10. In the literal-text engine, \<open>save\<close> with no output path derives the input
  path itself (the stem with the suffix put back, nothing added), writes the current text
  to it, over the input file, and returns it; no other file changes.
\<close>

theorem save_default_overwrites_input:
  assumes "valid_name (name (input_path i))" "get_content w i = (Inr c, w', i')"
  shows "with_stem (input_path i) (stem (input_path i)) = Inr (input_path i)
         \<and> save w i None = (Inr (input_path i), write_text w' (input_path i) c, i')
         \<and> files (write_text w' (input_path i) c) = (files w)(input_path i := Some c)"
proof -
  from with_stem_own_stem [OF assms(1)]
  have a: "with_stem (input_path i) (stem (input_path i)) = Inr (input_path i)" .
  with assms(2) have b: "save w i None = (Inr (input_path i), write_text w' (input_path i) c, i')"
    by (simp add: save_def)
  from get_content_files [OF assms(2)]
  have c: "files (write_text w' (input_path i) c) = (files w)(input_path i := Some c)"
    by (simp add: write_text_def)
  from a b c show ?thesis by blast
qed

theorem save_default_overwrites_input_witness:
  "valid_name ''LGFM1_ad09.xml''
   \<and> stem \<lparr>parent_parts = [''tmp''], name = ''LGFM1_ad09.xml''\<rparr> = ''LGFM1_ad09''
   \<and> suffix_of \<lparr>parent_parts = [''tmp''], name = ''LGFM1_ad09.xml''\<rparr> = ''.xml''
   \<and> fst (save \<lparr>files = (\<lambda>q. None), reads = [], warnings = []\<rparr>
             \<lparr>input_path = \<lparr>parent_parts = [''tmp''], name = ''LGFM1_ad09.xml''\<rparr>,
               cached = Some ''<a>1</a>''\<rparr> None)
       = Inr \<lparr>parent_parts = [''tmp''], name = ''LGFM1_ad09.xml''\<rparr>
   \<and> files (fst (snd (save \<lparr>files = (\<lambda>q. None), reads = [], warnings = []\<rparr>
             \<lparr>input_path = \<lparr>parent_parts = [''tmp''], name = ''LGFM1_ad09.xml''\<rparr>,
               cached = Some ''<a>1</a>''\<rparr> None)))
         \<lparr>parent_parts = [''tmp''], name = ''LGFM1_ad09.xml''\<rparr>
       = Some ''<a>1</a>''"
proof -
  let ?q = "\<lparr>parent_parts = [''tmp''], name = ''LGFM1_ad09.xml''\<rparr>"
  let ?w = "\<lparr>files = (\<lambda>q. None), reads = [], warnings = []\<rparr>"
  let ?i = "\<lparr>input_path = ?q, cached = Some ''<a>1</a>''\<rparr>"
  have v: "valid_name (name (input_path ?i))" by (simp add: valid_name_def)
  have g: "get_content ?w ?i = (Inr ''<a>1</a>'', ?w, ?i)" by (simp add: get_content_def)
  have s: "stem ?q = ''LGFM1_ad09''" "suffix_of ?q = ''.xml''"
    by (simp_all add: stem_def suffix_of_def rfind_def)
  from save_default_overwrites_input [OF v g] v s show ?thesis by (simp add: write_text_def)
qed

section \<open>What process_all decimal returns\<close>

lemma field_rules_log:
  "log (logic_numero_poliza (logic_numero_contrato (logic_modalidad_pago
     (logic_codigo_prestador (logic_cobertura p))))) = log p"
  by (simp add: content_logic_numero_poliza content_logic_numero_contrato
      content_logic_modalidad_pago content_logic_codigo_prestador content_logic_cobertura)

lemma period_tag_in_new: "sublist period_tag (new_invoice_period anchor d)"
proof -
  have "new_invoice_period anchor d = (anchor @ [CHR 0x0A]) @ period_tag @
     ([CHR 0x0A] @ '' <cbc:StartDate>'' @ d @ period_mid @ d @ period_tail)"
    by (simp add: new_invoice_period_pieces period_head_def period_tag_def)
  then show ?thesis by (metis sublist_appendI)
qed

lemma period_present_iff_no_warning:
  "is_invoice_period_present (logic_invoice_period decimal q) \<longleftrightarrow> log (logic_invoice_period decimal q) = log q"
proof -
  have p: "is_invoice_period_present x = sublist period_tag (content x)" for x
    by (simp add: is_invoice_period_present_def str_contains_sublist period_tag_def)
  show ?thesis
  proof (cases "sublist period_tag (content q)")
    case True
    then show ?thesis by (simp add: p content_logic_invoice_period log_logic_invoice_period)
  next
    case nt: False
    show ?thesis
    proof (cases "sublist anchor (content q)")
      case False
      with nt show ?thesis by (simp add: p content_logic_invoice_period log_logic_invoice_period)
    next
      case an: True
      show ?thesis
      proof (cases "issue_date decimal q")
        case None
        with nt an show ?thesis
          by (simp add: p content_logic_invoice_period log_logic_invoice_period)
      next
        case (Some d)
        have "sublist (new_invoice_period anchor d)
                (replace_from anchor (new_invoice_period anchor d) (content q))"
          using an by (rule replace_from_present [OF olds_nonempty(6)])
        with period_tag_in_new have "sublist period_tag
                (replace_from anchor (new_invoice_period anchor d) (content q))"
          by (metis sublist_order.order.trans)
        with nt an Some show ?thesis
          by (simp add: p content_logic_invoice_period log_logic_invoice_period)
      qed
    qed
  qed
qed

text \<open>
  Claim C6, as amended. The \<open>process_all\<close> of the literal-text engine returns nothing
  (\<open>None\<close>) on every document: no statistics record reports the nested documents or the
  period block. What it leaves is the text and the log: after it, the period block is
  present exactly when it has logged no warning.
\<close>

theorem process_all_returns_none:
  "fst (process_all decimal p) = None
   \<and> (is_invoice_period_present (snd (process_all decimal p)) \<longleftrightarrow> log (snd (process_all decimal p)) = log p)"
  using period_present_iff_no_warning
    [where q = "logic_numero_poliza (logic_numero_contrato (logic_modalidad_pago
           (logic_codigo_prestador (logic_cobertura p))))"]
  by (simp add: process_all_def field_rules_log)

theorem process_all_returns_none_witness:
  "fst (process_all ascii_only \<lparr>content = ''<cac:InvoicePeriod></cac:InvoicePeriod>'', log = []\<rparr>) = None
   \<and> is_invoice_period_present
        (snd (process_all ascii_only \<lparr>content = ''<cac:InvoicePeriod></cac:InvoicePeriod>'', log = []\<rparr>))
   \<and> log (snd (process_all ascii_only \<lparr>content = ''<cac:InvoicePeriod></cac:InvoicePeriod>'', log = []\<rparr>)) = []
   \<and> \<not> is_invoice_period_present (snd (process_all ascii_only \<lparr>content = ''<a>1</a>'', log = []\<rparr>))
   \<and> log (snd (process_all ascii_only \<lparr>content = ''<a>1</a>'', log = []\<rparr>)) = [No_LineCountNumeric]"
proof -
  have a: "log (snd (process_all ascii_only \<lparr>content = ''<cac:InvoicePeriod></cac:InvoicePeriod>'', log = []\<rparr>)) = []"
    and b: "log (snd (process_all ascii_only \<lparr>content = ''<a>1</a>'', log = []\<rparr>)) = [No_LineCountNumeric]"
    by (simp_all add: process_all_def field_rules_log log_logic_invoice_period
        content_logic_numero_poliza content_logic_numero_contrato content_logic_modalidad_pago
        content_logic_codigo_prestador content_logic_cobertura replace_from_absent
        sublist_code period_tag_def anchor_def cob_old_def cod_old_def mod_old_def con_old_def
        pol_old_def)
  from process_all_returns_none
    [of ascii_only "\<lparr>content = ''<cac:InvoicePeriod></cac:InvoicePeriod>'', log = []\<rparr>"]
    process_all_returns_none [of ascii_only "\<lparr>content = ''<a>1</a>'', log = []\<rparr>"] a b
  show ?thesis by simp
qed

text \<open>
  Claim C6 as stated fails on the literal-text engine: on a document that has a period
  block already (scenario E), \<open>process_all\<close> returns no record that could say that no
  period was added.
\<close>

theorem process_all_statistics_counterexample:
  "fst (process_all ascii_only \<lparr>content = ''<cac:InvoicePeriod></cac:InvoicePeriod>'', log = []\<rparr>) = None"
  by (simp add: process_all_def)

section \<open>Strings that the rules cannot touch\<close>

lemma inert_olds:
  "inert_outside cob_old cob_old" "inert_outside cod_old cod_old" "inert_outside mod_old mod_old"
  "inert_outside con_old con_old" "inert_outside pol_old pol_old"
  by code_simp+

lemma inert_markers:
  "inert_outside ''Evento NO PBS'' []" "inert_outside ''Evento PBS'' []"
  "inert_outside ''Subsidiado'' []" "inert_outside ''Contributivo'' []"
  "inert_outside period_tag []" "inert_outside anchor []"
  by code_simp+

lemma inert_news:
  "inert_outside con_new_sub con_old" "inert_outside con_new_con con_old"
  "inert_outside cob_new_no_pbs cob_old" "inert_outside cob_new_pbs cob_old"
  "inert_outside cod_new cod_old" "inert_outside mod_new mod_old" "inert_outside pol_new pol_old"
  by code_simp+

lemma inert_period_facts:
  "inert_period cob_old" "inert_period cod_old" "inert_period mod_old"
  "inert_period con_old" "inert_period pol_old"
  "inert_period ''Evento NO PBS''" "inert_period ''Evento PBS''"
  "inert_period ''Subsidiado''" "inert_period ''Contributivo''"
  "inert_period con_new_sub" "inert_period con_new_con"
  "inert_period cob_new_no_pbs" "inert_period cob_new_pbs"
  "inert_period cod_new" "inert_period mod_new" "inert_period pol_new"
  by code_simp+

lemma own_news:
  "\<not> clash cob_old cob_new_no_pbs" "\<not> clash cob_old cob_new_pbs" "\<not> clash cod_old cod_new"
  "\<not> clash mod_old mod_new" "\<not> clash con_old con_new_sub" "\<not> clash con_old con_new_con"
  "\<not> clash pol_old pol_new"
  by code_simp+

lemma unbordered_facts:
  "unbordered cob_old" "unbordered cod_old" "unbordered mod_old" "unbordered con_old"
  "unbordered pol_old" "unbordered anchor"
  "unbordered cob_new_no_pbs" "unbordered cob_new_pbs" "unbordered cod_new" "unbordered mod_new"
  "unbordered con_new_sub" "unbordered con_new_con" "unbordered pol_new"
  by code_simp+

lemma olds_distinct:
  "distinct [cob_old, cod_old, mod_old, con_old, pol_old, []]"
  by code_simp

lemma sublist_count: "sublist p s \<longleftrightarrow> count_occ s p \<noteq> 0"
  by (simp add: count_occ_zero)

lemma field_pairs_nonempty: "(old, new) \<in> set field_pairs \<Longrightarrow> old \<noteq> [] \<and> new \<noteq> []"
  by (auto simp: field_pairs_def cob_old_def cod_old_def mod_old_def con_old_def pol_old_def
      cob_new_no_pbs_def cob_new_pbs_def cod_new_def mod_new_def con_new_sub_def con_new_con_def
      pol_new_def)

lemma field_replace_count:
  assumes "inert_outside p own" "p \<noteq> []" "(old, new) \<in> set field_pairs" "old \<noteq> own"
  shows "count_occ (replace_from old new c) p = count_occ c p"
proof -
  from assms(1,3,4) have "\<not> clash p old" "\<not> clash p new"
    by (auto simp: inert_outside_def list_all_iff)
  with assms(2) field_pairs_nonempty [OF assms(3)] show ?thesis
    by (simp add: replace_from_count_other)
qed

lemma count_logic_cobertura:
  assumes "inert_outside p own" "p \<noteq> []" "cob_old \<noteq> own"
  shows "count_occ (content (logic_cobertura q)) p = count_occ (content q) p"
  using field_replace_count [OF assms(1,2) _ assms(3)]
  by (simp add: content_logic_cobertura field_pairs_def)

lemma count_logic_codigo_prestador:
  assumes "inert_outside p own" "p \<noteq> []" "cod_old \<noteq> own"
  shows "count_occ (content (logic_codigo_prestador q)) p = count_occ (content q) p"
  using field_replace_count [OF assms(1,2) _ assms(3)]
  by (simp add: content_logic_codigo_prestador field_pairs_def)

lemma count_logic_modalidad_pago:
  assumes "inert_outside p own" "p \<noteq> []" "mod_old \<noteq> own"
  shows "count_occ (content (logic_modalidad_pago q)) p = count_occ (content q) p"
  using field_replace_count [OF assms(1,2) _ assms(3)]
  by (simp add: content_logic_modalidad_pago field_pairs_def)

lemma count_logic_numero_contrato:
  assumes "inert_outside p own" "p \<noteq> []" "con_old \<noteq> own"
  shows "count_occ (content (logic_numero_contrato q)) p = count_occ (content q) p"
  using field_replace_count [OF assms(1,2) _ assms(3)]
  by (simp add: content_logic_numero_contrato field_pairs_def)

lemma count_logic_numero_poliza:
  assumes "inert_outside p own" "p \<noteq> []" "pol_old \<noteq> own"
  shows "count_occ (content (logic_numero_poliza q)) p = count_occ (content q) p"
  using field_replace_count [OF assms(1,2) _ assms(3)]
  by (simp add: content_logic_numero_poliza field_pairs_def)

lemma count_in_date:
  assumes "\<forall>c \<in> set d. date_char c" "p \<noteq> []" "\<not> date_char (hd p)"
  shows "count_occ d p = 0"
proof -
  have "\<not> sublist p d"
  proof
    assume "sublist p d"
    then have "set p \<subseteq> set d" by (rule set_mono_sublist)
    with assms(1,2) have "date_char (hd p)" by (cases p) auto
    with assms(3) show False by simp
  qed
  then show ?thesis by (simp add: count_occ_zero)
qed

lemma count_new_invoice_period:
  assumes "inert_period p" "\<forall>c \<in> set d. date_char c"
  shows "count_occ (x @ new_invoice_period anchor d @ y) p = count_occ x p + count_occ y p"
proof -
  from assms(1) have ne: "p \<noteq> []" and c1: "\<not> clash p (anchor @ period_head)"
    and c2: "\<not> clash p period_mid" and c3: "\<not> clash p period_tail"
    and hd: "\<not> date_char (hd p)"
    by (simp_all add: inert_period_def)
  have d0: "count_occ d p = 0" using assms(2) ne hd by (rule count_in_date)
  have "x @ new_invoice_period anchor d @ y
          = x @ (anchor @ period_head) @ (d @ period_mid @ (d @ period_tail @ y))"
    by (simp add: new_invoice_period_pieces)
  then have "count_occ (x @ new_invoice_period anchor d @ y) p
          = count_occ x p + count_occ (d @ period_mid @ (d @ period_tail @ y)) p"
    using count_isolated [OF c1 ne] by simp
  also have "count_occ (d @ period_mid @ (d @ period_tail @ y)) p
          = count_occ d p + count_occ (d @ period_tail @ y) p"
    using count_isolated [OF c2 ne] by simp
  also have "count_occ (d @ period_tail @ y) p = count_occ d p + count_occ y p"
    using count_isolated [OF c3 ne] by simp
  finally show ?thesis using d0 by simp
qed

lemma count_logic_invoice_period:
  assumes "inert_period p"
  shows "count_occ (content (logic_invoice_period decimal q)) p = count_occ (content q) p"
proof -
  from assms have ne: "p \<noteq> []" and ca: "\<not> clash p anchor" by (simp_all add: inert_period_def)
  have "count_occ (replace_from anchor (new_invoice_period anchor d) (content q)) p
          = count_occ (content q) p" if "issue_date decimal q = Some d" for d
  proof -
    from issue_date_Some [OF that] have "\<forall>c \<in> set d. date_char c" by blast
    then show ?thesis
      using replace_from_count_frame [OF olds_nonempty(6), of p "new_invoice_period anchor d"]
        count_isolated [OF ca ne] count_new_invoice_period [OF assms]
      by simp
  qed
  then show ?thesis by (simp add: content_logic_invoice_period split: option.splits)
qed

lemma olds_differ:
  "cob_old \<noteq> []" "cod_old \<noteq> []" "mod_old \<noteq> []" "con_old \<noteq> []" "pol_old \<noteq> []"
  "cob_old \<noteq> cod_old" "cob_old \<noteq> mod_old" "cob_old \<noteq> con_old" "cob_old \<noteq> pol_old"
  "cod_old \<noteq> cob_old" "cod_old \<noteq> mod_old" "cod_old \<noteq> con_old" "cod_old \<noteq> pol_old"
  "mod_old \<noteq> cob_old" "mod_old \<noteq> cod_old" "mod_old \<noteq> con_old" "mod_old \<noteq> pol_old"
  "con_old \<noteq> cob_old" "con_old \<noteq> cod_old" "con_old \<noteq> mod_old" "con_old \<noteq> pol_old"
  "pol_old \<noteq> cob_old" "pol_old \<noteq> cod_old" "pol_old \<noteq> mod_old" "pol_old \<noteq> con_old"
  using olds_distinct by auto

lemma strings_nonempty:
  "period_tag \<noteq> []" "anchor \<noteq> []" "con_new_sub \<noteq> []" "con_new_con \<noteq> []"
  "cob_new_no_pbs \<noteq> []" "cob_new_pbs \<noteq> []" "cod_new \<noteq> []" "mod_new \<noteq> []" "pol_new \<noteq> []"
  by (simp_all add: period_tag_def anchor_def con_new_sub_def con_new_con_def
      cob_new_no_pbs_def cob_new_pbs_def cod_new_def mod_new_def pol_new_def)

text \<open>A string that no field rule can touch occurs as often after the five field rules.\<close>

lemma count_field_rules:
  assumes "inert_outside s []" "s \<noteq> []"
  shows "count_occ (content (logic_numero_poliza (logic_numero_contrato (logic_modalidad_pago
           (logic_codigo_prestador (logic_cobertura p)))))) s = count_occ (content p) s"
  using assms
  by (simp add: count_logic_numero_poliza count_logic_numero_contrato count_logic_modalidad_pago
      count_logic_codigo_prestador count_logic_cobertura olds_differ)

text \<open>
  Claim C4, as amended. On a document that contains the opening tag of the period block
  as the presence check looks for it, the nineteen characters \<open><cac:InvoicePeriod>\<close>, the
  synthesizer changes nothing, and the whole pipeline leaves as many of these tags as
  there were (one stays one) and logs nothing: the field rules cannot touch the tag, and
  the presence check stops the synthesis.
\<close>

theorem period_block_not_duplicated:
  assumes "is_invoice_period_present p"
  shows "logic_invoice_period decimal p = p
         \<and> count_occ (content (snd (process_all decimal p))) ''<cac:InvoicePeriod>''
             = count_occ (content p) ''<cac:InvoicePeriod>''
         \<and> log (snd (process_all decimal p)) = log p"
proof -
  let ?q = "logic_numero_poliza (logic_numero_contrato (logic_modalidad_pago
           (logic_codigo_prestador (logic_cobertura p))))"
  have a: "logic_invoice_period decimal p = p" using assms by (simp add: logic_invoice_period_def)
  have c: "count_occ (content ?q) period_tag = count_occ (content p) period_tag"
    using inert_markers(5) strings_nonempty(1) by (rule count_field_rules)
  from assms have "sublist period_tag (content p)"
    by (simp add: is_invoice_period_present_def str_contains_sublist period_tag_def)
  with c have "sublist period_tag (content ?q)" by (simp add: sublist_count)
  then have "is_invoice_period_present ?q"
    by (simp add: is_invoice_period_present_def str_contains_sublist period_tag_def)
  then have "logic_invoice_period decimal ?q = ?q" by (simp add: logic_invoice_period_def)
  then have "snd (process_all decimal p) = ?q" by (simp add: process_all_def)
  with c field_rules_log [of p] a show ?thesis by (simp add: period_tag_def)
qed

theorem period_block_not_duplicated_witness:
  "is_invoice_period_present
     \<lparr>content = ''</cbc:LineCountNumeric><cac:InvoicePeriod></cac:InvoicePeriod>FecFac: 2025-07-29'',
      log = []\<rparr>
   \<and> count_occ (content (snd (process_all ascii_only
     \<lparr>content = ''</cbc:LineCountNumeric><cac:InvoicePeriod></cac:InvoicePeriod>FecFac: 2025-07-29'',
      log = []\<rparr>))) ''<cac:InvoicePeriod>'' = 1
   \<and> log (snd (process_all ascii_only
     \<lparr>content = ''</cbc:LineCountNumeric><cac:InvoicePeriod></cac:InvoicePeriod>FecFac: 2025-07-29'',
      log = []\<rparr>)) = []"
proof -
  let ?p = "\<lparr>content = ''</cbc:LineCountNumeric><cac:InvoicePeriod></cac:InvoicePeriod>FecFac: 2025-07-29'',
      log = []\<rparr>"
  have h: "is_invoice_period_present ?p" by (simp add: is_invoice_period_present_def)
  have c: "count_occ (content ?p) ''<cac:InvoicePeriod>'' = 1" by simp
  from period_block_not_duplicated [OF h] h c show ?thesis by simp
qed

text \<open>
  Claim C4 as stated fails on a period block whose opening tag is written otherwise: with
  an attribute in the tag, the presence check does not find the block, and the
  synthesizer puts a second block into the document.
\<close>

theorem period_block_with_attribute_counterexample:
  \<open>count_occ
     ''<cbc:LineCountNumeric>1</cbc:LineCountNumeric><cac:InvoicePeriod id="1"><cbc:StartDate>2025-07-29</cbc:StartDate></cac:InvoicePeriod>FecFac: 2025-07-29''
     ''<cac:InvoicePeriod'' = 1
   \<and> \<not> is_invoice_period_present
     \<lparr>content = ''<cbc:LineCountNumeric>1</cbc:LineCountNumeric><cac:InvoicePeriod id="1"><cbc:StartDate>2025-07-29</cbc:StartDate></cac:InvoicePeriod>FecFac: 2025-07-29'',
      log = []\<rparr>
   \<and> count_occ (content (logic_invoice_period ascii_only
     \<lparr>content = ''<cbc:LineCountNumeric>1</cbc:LineCountNumeric><cac:InvoicePeriod id="1"><cbc:StartDate>2025-07-29</cbc:StartDate></cac:InvoicePeriod>FecFac: 2025-07-29'',
      log = []\<rparr>)) ''<cac:InvoicePeriod'' = 2
   \<and> count_occ (content (snd (process_all ascii_only
     \<lparr>content = ''<cbc:LineCountNumeric>1</cbc:LineCountNumeric><cac:InvoicePeriod id="1"><cbc:StartDate>2025-07-29</cbc:StartDate></cac:InvoicePeriod>FecFac: 2025-07-29'',
      log = []\<rparr>))) ''<cac:InvoicePeriod'' = 2\<close>
  by code_simp

section \<open>The contract number\<close>

lemma contrato_clashes:
  "\<not> clash con_new_sub con_old" "\<not> clash con_new_con con_old"
  "\<not> clash con_new_sub con_new_con" "\<not> clash con_new_con con_new_sub"
  by code_simp+

lemma count_before_contrato:
  assumes "inert_outside s own" "s \<noteq> []" "cob_old \<noteq> own" "cod_old \<noteq> own" "mod_old \<noteq> own"
  shows "count_occ (content (logic_modalidad_pago (logic_codigo_prestador (logic_cobertura p)))) s
           = count_occ (content p) s"
  using assms
  by (simp add: count_logic_modalidad_pago count_logic_codigo_prestador count_logic_cobertura)

lemma count_after_contrato:
  assumes "inert_outside s own" "s \<noteq> []" "pol_old \<noteq> own" "inert_period s"
  shows "count_occ (content (logic_invoice_period decimal (logic_numero_poliza q))) s
           = count_occ (content q) s"
  using assms by (simp add: count_logic_invoice_period count_logic_numero_poliza)

lemma count_around_contrato:
  assumes "s = con_old \<or> s = con_new_sub \<or> s = con_new_con"
  shows "count_occ (content (logic_modalidad_pago (logic_codigo_prestador (logic_cobertura p)))) s
           = count_occ (content p) s"
    and "count_occ (content (logic_invoice_period decimal (logic_numero_poliza q))) s
           = count_occ (content q) s"
proof -
  from assms have i: "inert_outside s con_old" and n: "s \<noteq> []" and ip: "inert_period s"
    using inert_olds(4) inert_news(1,2) olds_differ(4) strings_nonempty(3,4)
      inert_period_facts(4,10,11) by auto
  show "count_occ (content (logic_modalidad_pago (logic_codigo_prestador (logic_cobertura p)))) s
           = count_occ (content p) s"
    using count_before_contrato [OF i n] olds_differ by simp
  show "count_occ (content (logic_invoice_period decimal (logic_numero_poliza q))) s
           = count_occ (content q) s"
    using count_after_contrato [OF i n _ ip] olds_differ by simp
qed

lemma markers_before_contrato:
  "is_subsidiado_present (logic_modalidad_pago (logic_codigo_prestador (logic_cobertura p)))
     = is_subsidiado_present p"
  "is_contributivo_present (logic_modalidad_pago (logic_codigo_prestador (logic_cobertura p)))
     = is_contributivo_present p"
  using count_before_contrato [OF inert_markers(3), of p] count_before_contrato [OF inert_markers(4), of p]
  by (simp_all add: is_subsidiado_present_def is_contributivo_present_def str_contains_sublist
      sublist_count olds_differ)

lemma count_contrato_step:
  "count_occ (replace_from con_old con_new_sub c) con_old = 0"
  "count_occ (replace_from con_old con_new_con c) con_old = 0"
  "count_occ (replace_from con_old con_new_sub c) con_new_sub
     = count_occ c con_old + count_occ c con_new_sub"
  "count_occ (replace_from con_old con_new_con c) con_new_con
     = count_occ c con_old + count_occ c con_new_con"
  "count_occ (replace_from con_old con_new_sub c) con_new_con = count_occ c con_new_con"
  "count_occ (replace_from con_old con_new_con c) con_new_sub = count_occ c con_new_sub"
proof -
  show "count_occ (replace_from con_old con_new_sub c) con_old = 0"
    using replace_from_eliminates [OF olds_differ(4) own_news(5)] by (simp add: count_occ_zero)
  show "count_occ (replace_from con_old con_new_con c) con_old = 0"
    using replace_from_eliminates [OF olds_differ(4) own_news(6)] by (simp add: count_occ_zero)
  show "count_occ (replace_from con_old con_new_sub c) con_new_sub
     = count_occ c con_old + count_occ c con_new_sub"
    using unbordered_facts(4,11) contrato_clashes(1)
    by (intro replace_from_count_new) (simp_all add: unbordered_def)
  show "count_occ (replace_from con_old con_new_con c) con_new_con
     = count_occ c con_old + count_occ c con_new_con"
    using unbordered_facts(4,12) contrato_clashes(2)
    by (intro replace_from_count_new) (simp_all add: unbordered_def)
  show "count_occ (replace_from con_old con_new_sub c) con_new_con = count_occ c con_new_con"
    using contrato_clashes olds_differ(4) strings_nonempty(4)
    by (intro replace_from_count_other) simp_all
  show "count_occ (replace_from con_old con_new_con c) con_new_sub = count_occ c con_new_sub"
    using contrato_clashes olds_differ(4) strings_nonempty(3)
    by (intro replace_from_count_other) simp_all
qed

text \<open>
  Claim C1. On a document where the contract-number placeholder occurs, the pipeline
  turns every placeholder slot into a slot that reads 10787 when the document contains
  \<open>Subsidiado\<close> (also when it contains \<open>Contributivo\<close> as well: no slot then reads 3672 that
  did not before), into a slot that reads 3672 when it contains \<open>Contributivo\<close> only, and
  leaves every placeholder slot as it is when it contains neither. The strings
  \<open>con_old\<close>, \<open>con_new_sub\<close> and \<open>con_new_con\<close> are the name marker with the slot that reads
  \<open>Array\<close>, 10787 and 3672.
\<close>

theorem contract_number_by_regime:
  assumes "is_present (numero_contrato p)"
  shows
    "(is_subsidiado_present p \<longrightarrow>
        \<not> is_present (numero_contrato (snd (process_all decimal p)))
        \<and> count_occ (content (snd (process_all decimal p))) con_new_sub
            = count_occ (content p) con_old + count_occ (content p) con_new_sub
        \<and> count_occ (content (snd (process_all decimal p))) con_new_con = count_occ (content p) con_new_con)
     \<and> (\<not> is_subsidiado_present p \<and> is_contributivo_present p \<longrightarrow>
        \<not> is_present (numero_contrato (snd (process_all decimal p)))
        \<and> count_occ (content (snd (process_all decimal p))) con_new_con
            = count_occ (content p) con_old + count_occ (content p) con_new_con
        \<and> count_occ (content (snd (process_all decimal p))) con_new_sub = count_occ (content p) con_new_sub)
     \<and> (\<not> is_subsidiado_present p \<and> \<not> is_contributivo_present p \<longrightarrow>
        is_present (numero_contrato (snd (process_all decimal p)))
        \<and> count_occ (content (snd (process_all decimal p))) con_old = count_occ (content p) con_old
        \<and> count_occ (content (snd (process_all decimal p))) con_new_sub = count_occ (content p) con_new_sub
        \<and> count_occ (content (snd (process_all decimal p))) con_new_con = count_occ (content p) con_new_con)
     \<and> 0 < count_occ (content p) con_old"
proof -
  let ?q3 = "logic_modalidad_pago (logic_codigo_prestador (logic_cobertura p))"
  let ?q4 = "logic_numero_contrato ?q3"
  let ?F = "snd (process_all decimal p)"
  have F: "?F = logic_invoice_period decimal (logic_numero_poliza ?q4)" by (simp add: process_all_def)
  have pres: "is_present (numero_contrato x) \<longleftrightarrow> count_occ (content x) con_old \<noteq> 0" for x
    by (simp add: is_present_def original_strings parents str_contains_sublist sublist_count)
  have m: "sublist ''Subsidiado'' (content ?q3) = is_subsidiado_present p"
    "sublist ''Contributivo'' (content ?q3) = is_contributivo_present p"
    using markers_before_contrato [of p]
    by (simp_all add: is_subsidiado_present_def is_contributivo_present_def str_contains_sublist)
  have post: "count_occ (content ?F) s = count_occ (content ?q4) s"
    if "s = con_old \<or> s = con_new_sub \<or> s = con_new_con" for s
    unfolding F using that by (rule count_around_contrato(2))
  have pre: "count_occ (content ?q3) s = count_occ (content p) s"
    if "s = con_old \<or> s = con_new_sub \<or> s = con_new_con" for s
    using that by (rule count_around_contrato(1))
  have c4: "content ?q4 =
     (if is_subsidiado_present p then replace_from con_old con_new_sub (content ?q3)
      else if is_contributivo_present p then replace_from con_old con_new_con (content ?q3)
      else content ?q3)"
    by (simp add: content_logic_numero_contrato m)
  from assms have pos: "0 < count_occ (content p) con_old" by (simp add: pres)
  show ?thesis
    using pos by (simp add: pres post pre c4 count_contrato_step)
qed

theorem contract_number_by_regime_witness:
  "is_present (numero_contrato \<lparr>content = con_old @ ''Subsidiado Contributivo'', log = []\<rparr>)
   \<and> is_subsidiado_present \<lparr>content = con_old @ ''Subsidiado Contributivo'', log = []\<rparr>
   \<and> \<not> is_present (numero_contrato
        (snd (process_all ascii_only \<lparr>content = con_old @ ''Subsidiado Contributivo'', log = []\<rparr>)))
   \<and> count_occ (content (snd (process_all ascii_only
        \<lparr>content = con_old @ ''Subsidiado Contributivo'', log = []\<rparr>))) con_new_sub = 1
   \<and> count_occ (content (snd (process_all ascii_only
        \<lparr>content = con_old @ ''Subsidiado Contributivo'', log = []\<rparr>))) con_new_con = 0
   \<and> is_present (numero_contrato \<lparr>content = con_old @ ''Contributivo'', log = []\<rparr>)
   \<and> \<not> is_subsidiado_present \<lparr>content = con_old @ ''Contributivo'', log = []\<rparr>
   \<and> is_contributivo_present \<lparr>content = con_old @ ''Contributivo'', log = []\<rparr>
   \<and> count_occ (content (snd (process_all ascii_only
        \<lparr>content = con_old @ ''Contributivo'', log = []\<rparr>))) con_new_con = 1
   \<and> is_present (numero_contrato \<lparr>content = con_old @ ''Otro'', log = []\<rparr>)
   \<and> \<not> is_subsidiado_present \<lparr>content = con_old @ ''Otro'', log = []\<rparr>
   \<and> \<not> is_contributivo_present \<lparr>content = con_old @ ''Otro'', log = []\<rparr>
   \<and> count_occ (content (snd (process_all ascii_only
        \<lparr>content = con_old @ ''Otro'', log = []\<rparr>))) con_old = 1"
proof -
  let ?a = "\<lparr>content = con_old @ ''Subsidiado Contributivo'', log = []\<rparr>"
  let ?b = "\<lparr>content = con_old @ ''Contributivo'', log = []\<rparr>"
  let ?c = "\<lparr>content = con_old @ ''Otro'', log = []\<rparr>"
  have p: "is_present (numero_contrato ?a)" "is_present (numero_contrato ?b)"
    "is_present (numero_contrato ?c)"
    by (simp_all add: is_present_def original_strings parents str_contains_sublist)
  have s: "is_subsidiado_present ?a" "\<not> is_subsidiado_present ?b" "\<not> is_subsidiado_present ?c"
    "is_contributivo_present ?b" "\<not> is_contributivo_present ?c"
    by (simp_all add: is_subsidiado_present_def is_contributivo_present_def con_old_def)
  have k: "count_occ (con_old @ ''Subsidiado Contributivo'') con_old = 1"
    "count_occ (con_old @ ''Subsidiado Contributivo'') con_new_sub = 0"
    "count_occ (con_old @ ''Subsidiado Contributivo'') con_new_con = 0"
    "count_occ (con_old @ ''Contributivo'') con_old = 1"
    "count_occ (con_old @ ''Contributivo'') con_new_con = 0"
    "count_occ (con_old @ ''Otro'') con_old = 1"
    by (simp_all add: con_old_def con_new_sub_def con_new_con_def)
  from contract_number_by_regime [OF p(1)] contract_number_by_regime [OF p(2)]
    contract_number_by_regime [OF p(3)] p s k
  show ?thesis by simp
qed

section \<open>Every occurrence is replaced\<close>

lemma count_prefix_mono: "count_occ s (a @ b) \<le> count_occ s a"
proof (induction s)
  case Nil
  then show ?case by simp
next
  case (Cons c s)
  have "prefix (a @ b) (c # s) \<Longrightarrow> prefix a (c # s)" by (metis append_prefixD)
  with Cons show ?case by auto
qed

lemma count_suffix_mono: "count_occ y p \<le> count_occ (x @ y) p"
  by (induction x) auto

lemma count_at_head: "q \<noteq> [] \<Longrightarrow> count_occ (q @ y) q = 1 + count_occ (tl q @ y) q"
  by (cases q) simp_all

lemma count_through_date:
  assumes "p \<noteq> []" "\<not> date_char (hd p)"
  shows "\<forall>c \<in> set d. date_char c \<Longrightarrow> count_occ (d @ y) p = count_occ y p"
proof (induction d)
  case Nil
  then show ?case by simp
next
  case (Cons c d)
  have "\<not> prefix p ((c # d) @ y)"
  proof
    assume "prefix p ((c # d) @ y)"
    with assms(1) have "hd p = c" by (cases p) auto
    with Cons.prems assms(2) show False by simp
  qed
  with Cons show ?case by simp
qed

lemma anchor_in_block:
  "\<not> starts_in anchor period_head" "\<not> starts_in anchor period_mid"
  "\<not> starts_in anchor period_tail" "\<not> date_char (hd anchor)"
  by code_simp+

lemma count_anchor_through_block:
  assumes "\<forall>c \<in> set d. date_char c"
  shows "count_occ (period_head @ d @ period_mid @ d @ period_tail @ y) anchor = count_occ y anchor"
  using assms
  by (simp add: count_through anchor_in_block count_through_date olds_nonempty)

lemma count_anchor_after_period:
  assumes "\<forall>c \<in> set d. date_char c"
  shows "count_occ (replace_from anchor (new_invoice_period anchor d) c) anchor = count_occ c anchor
         \<and> count_occ c anchor \<le> count_occ (replace_from anchor (new_invoice_period anchor d) c)
              (new_invoice_period anchor d)"
proof (induction c rule: length_induct)
  case (1 c)
  let ?N = "new_invoice_period anchor d"
  have ub: "\<not> starts_in anchor (tl anchor)" using unbordered_facts(6) by (simp add: unbordered_def)
  show ?case
  proof (cases "sublist anchor c")
    case False
    then have "count_occ c anchor = 0" by (simp add: count_occ_zero)
    with False show ?thesis by (simp add: replace_from_absent)
  next
    case True
    from replace_from_first [OF olds_nonempty(6) True] obtain u t where
      ut: "c = u @ anchor @ t" "\<not> sublist anchor u"
          "replace_from anchor ?N c = u @ ?N @ replace_from anchor ?N t"
      by blast
    have len: "length t < length c" using ut(1) olds_nonempty(6) by (cases anchor) auto
    with "1.IH" have ih: "count_occ (replace_from anchor ?N t) anchor = count_occ t anchor"
      "count_occ t anchor \<le> count_occ (replace_from anchor ?N t) ?N" by blast+
    have u0: "count_occ u anchor = 0" using ut(2) by (simp add: count_occ_zero)
    have a: "count_occ c anchor = 1 + count_occ t anchor"
      by (subst ut(1)) (simp add: count_self [OF olds_nonempty(6) ub] u0)
    have N: "?N = anchor @ (period_head @ d @ period_mid @ d @ period_tail)"
      by (simp add: new_invoice_period_pieces)
    have "replace_from anchor ?N c
            = u @ anchor @ (period_head @ d @ period_mid @ d @ period_tail @ replace_from anchor ?N t)"
      unfolding ut(3) by (subst N) simp
    then have b: "count_occ (replace_from anchor ?N c) anchor = 1 + count_occ t anchor"
      using count_self [OF olds_nonempty(6) ub, of u] u0 ih(1) count_anchor_through_block [OF assms]
      by simp
    have "?N \<noteq> []" by (simp add: new_invoice_period_def anchor_def)
    then have "count_occ (?N @ replace_from anchor ?N t) ?N
            = 1 + count_occ (tl ?N @ replace_from anchor ?N t) ?N"
      by (rule count_at_head)
    moreover have "count_occ (replace_from anchor ?N t) ?N
            \<le> count_occ (tl ?N @ replace_from anchor ?N t) ?N"
      by (rule count_suffix_mono)
    moreover have "count_occ (?N @ replace_from anchor ?N t) ?N
            \<le> count_occ (u @ ?N @ replace_from anchor ?N t) ?N"
      by (rule count_suffix_mono)
    ultimately have "1 + count_occ t anchor \<le> count_occ (replace_from anchor ?N c) ?N"
      using ih(2) ut(3) by simp
    with a b show ?thesis by simp
  qed
qed

lemma count_period_blocks:
  assumes "\<forall>c \<in> set d. date_char c"
  shows "count_occ (replace_from anchor (new_invoice_period anchor d) c) (new_invoice_period anchor d)
           = count_occ c anchor"
proof -
  let ?N = "new_invoice_period anchor d"
  have "?N = anchor @ (period_head @ d @ period_mid @ d @ period_tail)"
    by (simp add: new_invoice_period_pieces)
  then have "count_occ (replace_from anchor ?N c) ?N \<le> count_occ (replace_from anchor ?N c) anchor"
    by (metis count_prefix_mono)
  with count_anchor_after_period [OF assms, of c] show ?thesis by simp
qed

lemma news_vs_olds:
  "\<not> clash cob_new_no_pbs cob_old" "\<not> clash cob_new_pbs cob_old" "\<not> clash cod_new cod_old"
  "\<not> clash mod_new mod_old" "\<not> clash con_new_sub con_old" "\<not> clash con_new_con con_old"
  "\<not> clash pol_new pol_old"
  using own_news olds_nonempty strings_nonempty by (simp_all add: clash_commute)

lemma replace_all_counts:
  assumes "unbordered old" "unbordered new" "\<not> clash old new" "\<not> clash new old"
  shows "count_occ (replace_from old new c) old = 0
         \<and> count_occ (replace_from old new c) new = count_occ c old + count_occ c new"
proof -
  from assms(1,2) have ne: "old \<noteq> []" "new \<noteq> []" by (simp_all add: unbordered_def)
  from replace_from_eliminates [OF ne(1) assms(3)]
  have "count_occ (replace_from old new c) old = 0" by (simp add: count_occ_zero)
  moreover have "count_occ (replace_from old new c) new = count_occ c old + count_occ c new"
    using assms ne by (intro replace_from_count_new) (simp_all add: unbordered_def)
  ultimately show ?thesis by simp
qed

text \<open>
  Claim C9, as amended. In the literal-text engine a rule that replaces replaces every
  occurrence: after the provider-code, payment-modality and policy-number rules no
  placeholder of theirs is left, and there are as many more patched slots as there were
  placeholders; the same holds for the coverage rule and the contract-number rule on a
  document that contains one of their markers. When the synthesizer runs with a date
  \<open>d\<close>, the anchors are as many as before and every one of them is followed by the block.
\<close>

theorem rules_replace_every_occurrence:
  "count_occ (content (logic_codigo_prestador p)) cod_old = 0
   \<and> count_occ (content (logic_codigo_prestador p)) cod_new
       = count_occ (content p) cod_old + count_occ (content p) cod_new
   \<and> count_occ (content (logic_modalidad_pago p)) mod_old = 0
   \<and> count_occ (content (logic_modalidad_pago p)) mod_new
       = count_occ (content p) mod_old + count_occ (content p) mod_new
   \<and> count_occ (content (logic_numero_poliza p)) pol_old = 0
   \<and> count_occ (content (logic_numero_poliza p)) pol_new
       = count_occ (content p) pol_old + count_occ (content p) pol_new
   \<and> (is_present (evento_no_pbs p) \<longrightarrow>
        count_occ (content (logic_cobertura p)) cob_old = 0
        \<and> count_occ (content (logic_cobertura p)) cob_new_no_pbs
            = count_occ (content p) cob_old + count_occ (content p) cob_new_no_pbs)
   \<and> (\<not> is_present (evento_no_pbs p) \<and> is_present (evento_pbs p) \<longrightarrow>
        count_occ (content (logic_cobertura p)) cob_old = 0
        \<and> count_occ (content (logic_cobertura p)) cob_new_pbs
            = count_occ (content p) cob_old + count_occ (content p) cob_new_pbs)
   \<and> (is_subsidiado_present p \<longrightarrow>
        count_occ (content (logic_numero_contrato p)) con_old = 0
        \<and> count_occ (content (logic_numero_contrato p)) con_new_sub
            = count_occ (content p) con_old + count_occ (content p) con_new_sub)
   \<and> (\<not> is_subsidiado_present p \<and> is_contributivo_present p \<longrightarrow>
        count_occ (content (logic_numero_contrato p)) con_old = 0
        \<and> count_occ (content (logic_numero_contrato p)) con_new_con
            = count_occ (content p) con_old + count_occ (content p) con_new_con)
   \<and> (\<not> is_invoice_period_present p \<and> issue_date decimal p = Some d \<longrightarrow>
        count_occ (content (logic_invoice_period decimal p)) anchor = count_occ (content p) anchor
        \<and> count_occ (content (logic_invoice_period decimal p)) (new_invoice_period anchor d)
            = count_occ (content p) anchor)"
proof -
  note r = replace_all_counts [OF unbordered_facts(2,9) own_news(3) news_vs_olds(3)]
    replace_all_counts [OF unbordered_facts(3,10) own_news(4) news_vs_olds(4)]
    replace_all_counts [OF unbordered_facts(5,13) own_news(7) news_vs_olds(7)]
    replace_all_counts [OF unbordered_facts(1,7) own_news(1) news_vs_olds(1)]
    replace_all_counts [OF unbordered_facts(1,8) own_news(2) news_vs_olds(2)]
    replace_all_counts [OF unbordered_facts(4,11) own_news(5) news_vs_olds(5)]
    replace_all_counts [OF unbordered_facts(4,12) own_news(6) news_vs_olds(6)]
  have ev: "is_present (evento_no_pbs p) = sublist ''Evento NO PBS'' (content p)"
    "is_present (evento_pbs p) = sublist ''Evento PBS'' (content p)"
    "is_subsidiado_present p = sublist ''Subsidiado'' (content p)"
    "is_contributivo_present p = sublist ''Contributivo'' (content p)"
    "is_invoice_period_present p = sublist period_tag (content p)"
    by (simp_all add: is_present_def parents str_contains_sublist is_subsidiado_present_def
        is_contributivo_present_def is_invoice_period_present_def period_tag_def)
  have per: "count_occ (content (logic_invoice_period decimal p)) anchor = count_occ (content p) anchor
        \<and> count_occ (content (logic_invoice_period decimal p)) (new_invoice_period anchor d)
            = count_occ (content p) anchor"
    if h: "\<not> is_invoice_period_present p \<and> issue_date decimal p = Some d"
  proof -
    from issue_date_Some(3) [of decimal p d] h have d: "\<forall>c \<in> set d. date_char c" by blast
    show ?thesis
    proof (cases "sublist anchor (content p)")
      case True
      with h show ?thesis
        using count_anchor_after_period [OF d, of "content p"] count_period_blocks [OF d, of "content p"]
        by (simp add: content_logic_invoice_period ev)
    next
      case False
      then have z: "count_occ (content p) anchor = 0" by (simp add: count_occ_zero)
      have "new_invoice_period anchor d = anchor @ (period_head @ d @ period_mid @ d @ period_tail)"
        by (simp add: new_invoice_period_pieces)
      then have "count_occ (content p) (new_invoice_period anchor d) \<le> count_occ (content p) anchor"
        by (metis count_prefix_mono)
      with z False show ?thesis by (simp add: content_logic_invoice_period)
    qed
  qed
  show ?thesis
    using per
    by (simp add: content_logic_codigo_prestador content_logic_modalidad_pago
        content_logic_numero_poliza content_logic_cobertura content_logic_numero_contrato r ev)
qed

theorem rules_replace_every_occurrence_witness:
  "count_occ (cod_old @ ''a'' @ cod_old) cod_old = 2
   \<and> count_occ (content (logic_codigo_prestador \<lparr>content = cod_old @ ''a'' @ cod_old, log = []\<rparr>))
        cod_new = 2
   \<and> is_present (evento_no_pbs \<lparr>content = ''Evento NO PBS'' @ cob_old @ cob_old, log = []\<rparr>)
   \<and> count_occ (content (logic_cobertura
        \<lparr>content = ''Evento NO PBS'' @ cob_old @ cob_old, log = []\<rparr>)) cob_new_no_pbs = 2
   \<and> is_subsidiado_present \<lparr>content = ''Subsidiado'' @ con_old @ con_old, log = []\<rparr>
   \<and> count_occ (content (logic_numero_contrato
        \<lparr>content = ''Subsidiado'' @ con_old @ con_old, log = []\<rparr>)) con_new_sub = 2
   \<and> \<not> is_invoice_period_present \<lparr>content = anchor @ ''FecFac: 2025-07-29'' @ anchor, log = []\<rparr>
   \<and> issue_date ascii_only \<lparr>content = anchor @ ''FecFac: 2025-07-29'' @ anchor, log = []\<rparr>
       = Some ''2025-07-29''
   \<and> count_occ (content (logic_invoice_period ascii_only
        \<lparr>content = anchor @ ''FecFac: 2025-07-29'' @ anchor, log = []\<rparr>))
        (new_invoice_period anchor ''2025-07-29'') = 2"
proof -
  let ?a = "\<lparr>content = cod_old @ ''a'' @ cod_old, log = []\<rparr>"
  let ?b = "\<lparr>content = ''Evento NO PBS'' @ cob_old @ cob_old, log = []\<rparr>"
  let ?c = "\<lparr>content = ''Subsidiado'' @ con_old @ con_old, log = []\<rparr>"
  let ?e = "\<lparr>content = anchor @ ''FecFac: 2025-07-29'' @ anchor, log = []\<rparr>"
  have k: "count_occ (cod_old @ ''a'' @ cod_old) cod_old = 2"
    "count_occ (cod_old @ ''a'' @ cod_old) cod_new = 0"
    "count_occ (''Evento NO PBS'' @ cob_old @ cob_old) cob_old = 2"
    "count_occ (''Evento NO PBS'' @ cob_old @ cob_old) cob_new_no_pbs = 0"
    "count_occ (''Subsidiado'' @ con_old @ con_old) con_old = 2"
    "count_occ (''Subsidiado'' @ con_old @ con_old) con_new_sub = 0"
    "count_occ (anchor @ ''FecFac: 2025-07-29'' @ anchor) anchor = 2"
    by code_simp+
  have h: "is_present (evento_no_pbs ?b)" "is_subsidiado_present ?c"
    "\<not> is_invoice_period_present ?e" "issue_date ascii_only ?e = Some ''2025-07-29''"
    by code_simp+
  note c2 = conjunct2
  have a: "count_occ (content (logic_codigo_prestador ?a)) cod_new = 2"
    using rules_replace_every_occurrence [where p = ?a and decimal = ascii_only and d = "[]", THEN c2, THEN conjunct1]
    by (simp only: processor.select_convs k add_0_right)
  have b: "count_occ (content (logic_cobertura ?b)) cob_new_no_pbs = 2"
    using rules_replace_every_occurrence
      [where p = ?b and decimal = ascii_only and d = "[]", THEN c2, THEN c2, THEN c2, THEN c2, THEN c2, THEN c2, THEN conjunct1] h(1)
    by (simp only: processor.select_convs k add_0_right simp_thms)
  have c: "count_occ (content (logic_numero_contrato ?c)) con_new_sub = 2"
    using rules_replace_every_occurrence
      [where p = ?c and decimal = ascii_only and d = "[]", THEN c2, THEN c2, THEN c2, THEN c2, THEN c2, THEN c2, THEN c2, THEN c2,
       THEN conjunct1] h(2)
    by (simp only: processor.select_convs k add_0_right simp_thms)
  have e: "count_occ (content (logic_invoice_period ascii_only ?e)) (new_invoice_period anchor ''2025-07-29'') = 2"
    using rules_replace_every_occurrence
      [where p = ?e and decimal = ascii_only and d = "''2025-07-29''", THEN c2, THEN c2, THEN c2, THEN c2, THEN c2, THEN c2, THEN c2,
       THEN c2, THEN c2, THEN c2] h(3,4)
    by (simp only: processor.select_convs k simp_thms)
  from k(1) a h(1) b h(2) c h(3,4) e show ?thesis
    by - (intro conjI; assumption)
qed

text \<open>
  Claim C9 as stated fails for the two rules that need a marker: on a document with two
  coverage placeholders and no event marker, the coverage rule replaces none of them.
\<close>

theorem coverage_rule_counterexample:
  "is_present (cobertura \<lparr>content = cob_old @ cob_old, log = []\<rparr>)
   \<and> count_occ (cob_old @ cob_old) cob_old = 2
   \<and> logic_cobertura \<lparr>content = cob_old @ cob_old, log = []\<rparr>
       = \<lparr>content = cob_old @ cob_old, log = []\<rparr>"
  by (simp add: logic_cobertura_def is_present_def cobertura_def evento_no_pbs_def
      evento_pbs_def cob_old_def)

section \<open>A second pass changes nothing\<close>

lemma count_later_rules:
  assumes "inert_outside s own" "s \<noteq> []" "inert_period s"
  shows "pol_old \<noteq> own \<Longrightarrow>
           count_occ (content (logic_invoice_period decimal (logic_numero_poliza q))) s
             = count_occ (content q) s"
    and "con_old \<noteq> own \<Longrightarrow> pol_old \<noteq> own \<Longrightarrow>
           count_occ (content (logic_invoice_period decimal (logic_numero_poliza
             (logic_numero_contrato q)))) s = count_occ (content q) s"
    and "mod_old \<noteq> own \<Longrightarrow> con_old \<noteq> own \<Longrightarrow> pol_old \<noteq> own \<Longrightarrow>
           count_occ (content (logic_invoice_period decimal (logic_numero_poliza
             (logic_numero_contrato (logic_modalidad_pago q))))) s = count_occ (content q) s"
    and "cod_old \<noteq> own \<Longrightarrow> mod_old \<noteq> own \<Longrightarrow> con_old \<noteq> own \<Longrightarrow> pol_old \<noteq> own \<Longrightarrow>
           count_occ (content (logic_invoice_period decimal (logic_numero_poliza
             (logic_numero_contrato (logic_modalidad_pago (logic_codigo_prestador q)))))) s
             = count_occ (content q) s"
  using assms
  by (simp_all add: count_logic_invoice_period count_logic_numero_poliza
      count_logic_numero_contrato count_logic_modalidad_pago count_logic_codigo_prestador)

lemma absent_after_own_rule:
  "\<not> sublist cod_old (content (logic_codigo_prestador p))"
  "\<not> sublist mod_old (content (logic_modalidad_pago p))"
  "\<not> sublist pol_old (content (logic_numero_poliza p))"
  "\<not> sublist cob_old (content (logic_cobertura p))
     \<or> (\<not> sublist ''Evento NO PBS'' (content (logic_cobertura p))
        \<and> \<not> sublist ''Evento PBS'' (content (logic_cobertura p)))"
  "\<not> sublist con_old (content (logic_numero_contrato p))
     \<or> (\<not> sublist ''Subsidiado'' (content (logic_numero_contrato p))
        \<and> \<not> sublist ''Contributivo'' (content (logic_numero_contrato p)))"
  using replace_from_eliminates [OF olds_differ(2) own_news(3)]
    replace_from_eliminates [OF olds_differ(3) own_news(4)]
    replace_from_eliminates [OF olds_differ(5) own_news(7)]
    replace_from_eliminates [OF olds_differ(1) own_news(1)]
    replace_from_eliminates [OF olds_differ(1) own_news(2)]
    replace_from_eliminates [OF olds_differ(4) own_news(5)]
    replace_from_eliminates [OF olds_differ(4) own_news(6)]
  by (simp_all add: content_logic_codigo_prestador content_logic_modalidad_pago
      content_logic_numero_poliza content_logic_cobertura content_logic_numero_contrato)

lemma rule_without_effect:
  "\<not> sublist cod_old (content q) \<Longrightarrow> content (logic_codigo_prestador q) = content q"
  "\<not> sublist mod_old (content q) \<Longrightarrow> content (logic_modalidad_pago q) = content q"
  "\<not> sublist pol_old (content q) \<Longrightarrow> content (logic_numero_poliza q) = content q"
  "\<not> sublist cob_old (content q)
     \<or> (\<not> sublist ''Evento NO PBS'' (content q) \<and> \<not> sublist ''Evento PBS'' (content q))
     \<Longrightarrow> content (logic_cobertura q) = content q"
  "\<not> sublist con_old (content q)
     \<or> (\<not> sublist ''Subsidiado'' (content q) \<and> \<not> sublist ''Contributivo'' (content q))
     \<Longrightarrow> content (logic_numero_contrato q) = content q"
  by (auto simp: content_logic_codigo_prestador content_logic_modalidad_pago
      content_logic_numero_poliza content_logic_cobertura content_logic_numero_contrato
      replace_from_absent)

lemma issue_date_content: "content r = content q \<Longrightarrow> issue_date decimal r = issue_date decimal q"
  by (simp add: issue_date_def)

lemma period_without_effect:
  assumes "content r = content (logic_invoice_period decimal q)"
  shows "content (logic_invoice_period decimal r) = content r"
proof (cases "sublist period_tag (content q) \<or> \<not> sublist anchor (content q) \<or> issue_date decimal q = None")
  case True
  then have "content (logic_invoice_period decimal q) = content q"
    by (auto simp: content_logic_invoice_period)
  with assms have e: "content r = content q" by simp
  from issue_date_content [OF this] True show ?thesis
    by (auto simp: content_logic_invoice_period e)
next
  case False
  then obtain d where d: "issue_date decimal q = Some d" by auto
  with False have "content (logic_invoice_period decimal q)
      = replace_from anchor (new_invoice_period anchor d) (content q)"
    by (simp add: content_logic_invoice_period)
  moreover have "sublist (new_invoice_period anchor d)
      (replace_from anchor (new_invoice_period anchor d) (content q))"
    using False by (intro replace_from_present [OF olds_nonempty(6)]) simp
  ultimately have "sublist period_tag (content r)"
    using assms period_tag_in_new [of d] by (metis sublist_order.order.trans)
  then show ?thesis by (simp add: content_logic_invoice_period)
qed

lemma settled_after_process_all:
  "\<not> sublist cod_old (content (snd (process_all decimal p)))"
  "\<not> sublist mod_old (content (snd (process_all decimal p)))"
  "\<not> sublist pol_old (content (snd (process_all decimal p)))"
  "\<not> sublist cob_old (content (snd (process_all decimal p)))
     \<or> (\<not> sublist ''Evento NO PBS'' (content (snd (process_all decimal p)))
        \<and> \<not> sublist ''Evento PBS'' (content (snd (process_all decimal p))))"
  "\<not> sublist con_old (content (snd (process_all decimal p)))
     \<or> (\<not> sublist ''Subsidiado'' (content (snd (process_all decimal p)))
        \<and> \<not> sublist ''Contributivo'' (content (snd (process_all decimal p))))"
proof -
  let ?q1 = "logic_cobertura p"
  let ?q2 = "logic_codigo_prestador ?q1"
  let ?q3 = "logic_modalidad_pago ?q2"
  let ?q4 = "logic_numero_contrato ?q3"
  let ?q5 = "logic_numero_poliza ?q4"
  have F: "snd (process_all decimal p) = logic_invoice_period decimal ?q5" by (simp add: process_all_def)
  have ne: "''Evento NO PBS'' \<noteq> []" "''Evento PBS'' \<noteq> []" "''Subsidiado'' \<noteq> []"
    "''Contributivo'' \<noteq> []" by simp_all
  show "\<not> sublist cod_old (content (snd (process_all decimal p)))"
    using absent_after_own_rule(1) [of ?q1]
      count_later_rules(3) [OF inert_olds(2) olds_differ(2) inert_period_facts(2), where q = ?q2]
    by (simp add: F sublist_count olds_differ)
  show "\<not> sublist mod_old (content (snd (process_all decimal p)))"
    using absent_after_own_rule(2) [of ?q2]
      count_later_rules(2) [OF inert_olds(3) olds_differ(3) inert_period_facts(3), where q = ?q3]
    by (simp add: F sublist_count olds_differ)
  show "\<not> sublist pol_old (content (snd (process_all decimal p)))"
    using absent_after_own_rule(3) [of ?q4]
      count_logic_invoice_period [OF inert_period_facts(5), where q = ?q5]
    by (simp add: F sublist_count)
  show "\<not> sublist cob_old (content (snd (process_all decimal p)))
     \<or> (\<not> sublist ''Evento NO PBS'' (content (snd (process_all decimal p)))
        \<and> \<not> sublist ''Evento PBS'' (content (snd (process_all decimal p))))"
    using absent_after_own_rule(4) [of p]
      count_later_rules(4) [OF inert_olds(1) olds_differ(1) inert_period_facts(1), where q = ?q1]
      count_later_rules(4) [OF inert_markers(1) ne(1) inert_period_facts(6), where q = ?q1]
      count_later_rules(4) [OF inert_markers(2) ne(2) inert_period_facts(7), where q = ?q1]
    by (simp add: F sublist_count olds_differ)
  show "\<not> sublist con_old (content (snd (process_all decimal p)))
     \<or> (\<not> sublist ''Subsidiado'' (content (snd (process_all decimal p)))
        \<and> \<not> sublist ''Contributivo'' (content (snd (process_all decimal p))))"
    using absent_after_own_rule(5) [of ?q3]
      count_later_rules(1) [OF inert_olds(4) olds_differ(4) inert_period_facts(4), where q = ?q4]
      count_later_rules(1) [OF inert_markers(3) ne(3) inert_period_facts(8), where q = ?q4]
      count_later_rules(1) [OF inert_markers(4) ne(4) inert_period_facts(9), where q = ?q4]
    by (simp add: F sublist_count olds_differ)
qed

text \<open>
  Claim C2. Running \<open>process_all\<close> a second time leaves the text that the first run made.
  After one run no provider-code, payment-modality or policy-number placeholder is
  left, a coverage or contract-number placeholder is left only in a document that has
  none of its markers, and the synthesizer finds what it found or made: so each of the
  six rules of the second run changes nothing.
\<close>

theorem process_all_idempotent:
  "content (snd (process_all decimal (snd (process_all decimal p)))) = content (snd (process_all decimal p))
   \<and> \<not> is_present (codigo_prestador (snd (process_all decimal p)))
   \<and> \<not> is_present (modalidad_pago (snd (process_all decimal p)))
   \<and> \<not> is_present (numero_poliza (snd (process_all decimal p)))
   \<and> (is_present (cobertura (snd (process_all decimal p))) \<longrightarrow>
        \<not> is_present (evento_no_pbs (snd (process_all decimal p)))
        \<and> \<not> is_present (evento_pbs (snd (process_all decimal p))))
   \<and> (is_present (numero_contrato (snd (process_all decimal p))) \<longrightarrow>
        \<not> is_subsidiado_present (snd (process_all decimal p))
        \<and> \<not> is_contributivo_present (snd (process_all decimal p)))
   \<and> content (logic_invoice_period decimal (snd (process_all decimal p))) = content (snd (process_all decimal p))"
proof -
  let ?s = "snd (process_all decimal p)"
  let ?q5 = "logic_numero_poliza (logic_numero_contrato (logic_modalidad_pago
               (logic_codigo_prestador (logic_cobertura p))))"
  let ?r1 = "logic_cobertura ?s"
  let ?r2 = "logic_codigo_prestador ?r1"
  let ?r3 = "logic_modalidad_pago ?r2"
  let ?r4 = "logic_numero_contrato ?r3"
  let ?r5 = "logic_numero_poliza ?r4"
  note st = settled_after_process_all [of decimal p]
  have s: "?s = logic_invoice_period decimal ?q5" by (simp add: process_all_def)
  have 1: "content ?r1 = content ?s" using st(4) by (rule rule_without_effect(4))
  have 2: "content ?r2 = content ?s" using rule_without_effect(1) [of ?r1] st(1) 1 by simp
  have 3: "content ?r3 = content ?s" using rule_without_effect(2) [of ?r2] st(2) 2 by simp
  have 4: "content ?r4 = content ?s" using rule_without_effect(5) [of ?r3] st(5) 3 by simp
  have 5: "content ?r5 = content ?s" using rule_without_effect(3) [of ?r4] st(3) 4 by simp
  have "content ?r5 = content (logic_invoice_period decimal ?q5)" using 5 s by simp
  then have "content (logic_invoice_period decimal ?r5) = content ?r5" by (rule period_without_effect)
  with 5 have a: "content (snd (process_all decimal ?s)) = content ?s" by (simp add: process_all_def)
  have b: "content (logic_invoice_period decimal ?s) = content ?s"
    using period_without_effect [where r = ?s and q = ?q5] s by simp
  from a b st show ?thesis
    by (simp add: is_present_def original_strings parents str_contains_sublist
        is_subsidiado_present_def is_contributivo_present_def)
qed

theorem process_all_idempotent_witness:
  "content (snd (process_all ascii_only (snd (process_all ascii_only \<lparr>content = cod_old @ cob_old, log = []\<rparr>))))
     = content (snd (process_all ascii_only \<lparr>content = cod_old @ cob_old, log = []\<rparr>))
   \<and> snd (process_all ascii_only \<lparr>content = cod_old @ cob_old, log = []\<rparr>)
       = \<lparr>content = cod_new @ cob_old, log = [No_LineCountNumeric]\<rparr>
   \<and> is_present (cobertura (snd (process_all ascii_only \<lparr>content = cod_old @ cob_old, log = []\<rparr>)))
   \<and> \<not> is_present (evento_no_pbs (snd (process_all ascii_only \<lparr>content = cod_old @ cob_old, log = []\<rparr>)))
   \<and> \<not> is_present (evento_pbs (snd (process_all ascii_only \<lparr>content = cod_old @ cob_old, log = []\<rparr>)))"
proof -
  let ?a = "\<lparr>content = cod_old @ cob_old, log = []\<rparr>"
  have c: "snd (process_all ascii_only ?a) = \<lparr>content = cod_new @ cob_old, log = [No_LineCountNumeric]\<rparr>"
    by code_simp
  have p: "is_present (cobertura \<lparr>content = cod_new @ cob_old, log = [No_LineCountNumeric]\<rparr>)"
    by code_simp
  note t = process_all_idempotent [of ascii_only ?a]
  from t have i: "content (snd (process_all ascii_only (snd (process_all ascii_only ?a)))) = content (snd (process_all ascii_only ?a))"
    by (rule conjunct1)
  from t [THEN conjunct2, THEN conjunct2, THEN conjunct2, THEN conjunct2, THEN conjunct1] p
  have e: "\<not> is_present (evento_no_pbs (snd (process_all ascii_only ?a)))
        \<and> \<not> is_present (evento_pbs (snd (process_all ascii_only ?a)))"
    by (simp only: c simp_thms)
  from p have p': "is_present (cobertura (snd (process_all ascii_only ?a)))" by (simp only: c)
  from i c p' e show ?thesis by - (intro conjI; (assumption | (elim conjE, assumption)))
qed

section \<open>What the pipeline leaves in place\<close>

lemma news_apart:
  "list_all (\<lambda>(old, new). list_all (\<lambda>p. \<not> clash new p)
     [cob_old, cod_old, mod_old, con_old, pol_old, anchor]) field_pairs"
  by code_simp

lemma patched_field_step:
  assumes "patched (set field_pairs) c t" "(p, n) \<in> set field_pairs \<or> p = anchor"
  shows "patched (insert (p, n) (set field_pairs)) c (replace_from p n t)"
proof -
  from assms(2) have m: "p \<in> set [cob_old, cod_old, mod_old, con_old, pol_old, anchor]"
    by (auto simp: field_pairs_def)
  then have ne: "p \<noteq> []" using olds_nonempty by auto
  have "\<forall>(old, new) \<in> set field_pairs. new \<noteq> [] \<and> \<not> clash new p"
    using news_apart m field_pairs_nonempty unfolding list_all_iff by blast
  from patched_then_replace [OF ne this assms(1)] show ?thesis .
qed

lemma patched_field_rule:
  assumes "patched (set field_pairs) c t" "(p, n) \<in> set field_pairs"
  shows "patched (set field_pairs) c (replace_from p n t)"
  using patched_field_step [OF assms(1), of p n] assms(2) by (simp add: insert_absorb)

lemma patched_field_rules:
  assumes "patched (set field_pairs) c (content q)"
  shows "patched (set field_pairs) c (content (logic_cobertura q))"
    and "patched (set field_pairs) c (content (logic_codigo_prestador q))"
    and "patched (set field_pairs) c (content (logic_modalidad_pago q))"
    and "patched (set field_pairs) c (content (logic_numero_contrato q))"
    and "patched (set field_pairs) c (content (logic_numero_poliza q))"
  using assms patched_field_rule [OF assms]
  by (simp_all add: content_logic_cobertura content_logic_codigo_prestador
      content_logic_modalidad_pago content_logic_numero_contrato content_logic_numero_poliza
      field_pairs_def)

lemma patched_period:
  assumes "patched (set field_pairs) c (content q)"
  shows "patched patch_rules c (content (logic_invoice_period decimal q))"
proof -
  have sub: "set field_pairs \<subseteq> patch_rules" by (simp add: patch_rules_def)
  have "patched patch_rules c (replace_from anchor (new_invoice_period anchor d) (content q))" for d
  proof -
    have "insert (anchor, new_invoice_period anchor d) (set field_pairs) \<subseteq> patch_rules"
      by (auto simp: patch_rules_def)
    with patched_field_step [OF assms, of anchor "new_invoice_period anchor d"]
    show ?thesis by (auto intro: patched_mono)
  qed
  moreover have "patched patch_rules c (content q)" using assms sub by (rule patched_mono)
  ultimately show ?thesis
    by (simp add: content_logic_invoice_period split: option.splits)
qed

lemma process_all_patched:
  "patched patch_rules (content p) (content (snd (process_all decimal p)))"
  unfolding process_all_def snd_conv
  by (intro patched_period patched_field_rules patched_refl)

lemma universal_newlines_without_cr:
  "CHR 0x0D \<notin> set b \<Longrightarrow> universal_newlines b = b"
  by (induction b rule: universal_newlines.induct) auto

lemma update_invoice_result:
  assumes "files w q = Some b" "utf8_valid b" "valid_name (name q)"
  shows "update_invoice decimal w q =
           (Inr q,
            \<lparr>files = (files w)(q := Some (content (snd (process_all decimal
                 \<lparr>content = universal_newlines b, log = warnings w\<rparr>)))),
             reads = reads w @ [q],
             warnings = log (snd (process_all decimal \<lparr>content = universal_newlines b, log = warnings w\<rparr>))\<rparr>)"
proof -
  let ?p = "process_all decimal \<lparr>content = universal_newlines b, log = warnings w\<rparr>"
  let ?w1 = "w\<lparr>reads := reads w @ [q]\<rparr>"
  let ?i1 = "(init q)\<lparr>cached := Some (universal_newlines b)\<rparr>"
  have g: "get_content w (init q) = (Inr (universal_newlines b), ?w1, ?i1)"
    using assms(1,2) by (simp add: get_content_def read_text_def init_def)
  have pa: "process_all_on decimal w (init q)
      = (Inr (fst ?p), ?w1\<lparr>warnings := log (snd ?p)\<rparr>, set_content (content (snd ?p)) ?i1)"
    by (simp add: process_all_on_def g split: prod.splits)
  let ?w2 = "?w1\<lparr>warnings := log (snd ?p)\<rparr>"
  let ?i2 = "set_content (content (snd ?p)) ?i1"
  have ip: "input_path ?i2 = q" by (simp add: set_content_def init_def)
  have g2: "get_content ?w2 ?i2 = (Inr (content (snd ?p)), ?w2, ?i2)"
    by (simp add: get_content_def set_content_def)
  have "valid_name (name (input_path ?i2))" using assms(3) ip by simp
  from with_stem_own_stem [OF this]
  have "save ?w2 ?i2 None = (Inr q, write_text ?w2 q (content (snd ?p)), ?i2)"
    using ip g2 by (simp add: save_def)
  then show ?thesis
    by (simp add: update_invoice_def pa write_text_def)
qed

text \<open>
  Claim C5, as amended. In the literal-text engine, the file that \<open>update_invoice\<close> writes
  is the text as read, that is, the bytes of the input with \<open>\r\n\<close> and \<open>\r\<close> turned into
  \<open>\n\<close>, in which occurrences of the five placeholder patterns are replaced by their
  patched forms and period blocks are put after the anchor, every other character staying
  in place; an input without \<open>\r\<close> is read as it is, so that there only those spans differ.
\<close>

theorem update_invoice_changes_only_patched_spans:
  assumes "files w q = Some b" "utf8_valid b" "valid_name (name q)"
  shows "fst (update_invoice decimal w q) = Inr q
         \<and> files (snd (update_invoice decimal w q))
             = (files w)(q := Some (content (snd (process_all decimal
                  \<lparr>content = universal_newlines b, log = warnings w\<rparr>))))
         \<and> patched patch_rules (universal_newlines b)
             (content (snd (process_all decimal \<lparr>content = universal_newlines b, log = warnings w\<rparr>)))
         \<and> (CHR 0x0D \<notin> set b \<longrightarrow> universal_newlines b = b)"
  using update_invoice_result [where decimal = decimal, OF assms]
    process_all_patched
      [where decimal = decimal and p = "\<lparr>content = universal_newlines b, log = warnings w\<rparr>"]
    universal_newlines_without_cr [of b]
  by simp

theorem update_invoice_changes_only_patched_spans_witness:
  "files \<lparr>files = (\<lambda>q. Some (''<a>'' @ cod_old @ ''</a>'')), reads = [], warnings = []\<rparr>
      \<lparr>parent_parts = [''tmp''], name = ''f.xml''\<rparr> = Some (''<a>'' @ cod_old @ ''</a>'')
   \<and> utf8_valid (''<a>'' @ cod_old @ ''</a>'')
   \<and> valid_name ''f.xml''
   \<and> files (snd (update_invoice ascii_only
         \<lparr>files = (\<lambda>q. Some (''<a>'' @ cod_old @ ''</a>'')), reads = [], warnings = []\<rparr>
         \<lparr>parent_parts = [''tmp''], name = ''f.xml''\<rparr>))
         \<lparr>parent_parts = [''tmp''], name = ''f.xml''\<rparr>
       = Some (''<a>'' @ cod_new @ ''</a>'')
   \<and> patched patch_rules (''<a>'' @ cod_old @ ''</a>'') (''<a>'' @ cod_new @ ''</a>'')"
proof -
  let ?b = "''<a>'' @ cod_old @ ''</a>''"
  let ?w = "\<lparr>files = (\<lambda>q. Some ?b), reads = [], warnings = []\<rparr>"
  let ?q = "\<lparr>parent_parts = [''tmp''], name = ''f.xml''\<rparr>"
  have f: "files ?w ?q = Some ?b" by simp
  have u: "utf8_valid ?b" by code_simp
  have v: "valid_name ''f.xml''" by code_simp
  have v': "valid_name (name ?q)" using v by simp
  have n: "universal_newlines ?b = ?b" by code_simp
  have c: "content (snd (process_all ascii_only \<lparr>content = ?b, log = warnings ?w\<rparr>)) = ''<a>'' @ cod_new @ ''</a>''"
    by code_simp
  note t = update_invoice_changes_only_patched_spans [where decimal = ascii_only, OF f u v']
  from t have "files (snd (update_invoice ascii_only ?w ?q))
      = (files ?w)(?q := Some (content (snd (process_all ascii_only
                  \<lparr>content = universal_newlines ?b, log = warnings ?w\<rparr>))))"
    by (elim conjE)
  then have a: "files (snd (update_invoice ascii_only ?w ?q)) ?q = Some (''<a>'' @ cod_new @ ''</a>'')"
    by (simp only: n c fun_upd_same)
  from t have "patched patch_rules (universal_newlines ?b)
             (content (snd (process_all ascii_only \<lparr>content = universal_newlines ?b, log = warnings ?w\<rparr>)))"
    by (elim conjE)
  then have b: "patched patch_rules ?b (''<a>'' @ cod_new @ ''</a>'')"
    by (simp only: n c)
  from f u v a b show ?thesis by - (intro conjI; assumption)
qed

text \<open>
  Claim C5 as stated fails on line endings: a file with a \<open>\r\n\<close> in which no rule finds
  anything to patch is written back with \<open>\n\<close> in its place.
\<close>

theorem line_ending_counterexample:
  "\<not> str_contains (''<a>'' @ [CHR 0x0D, CHR 0x0A] @ ''</a>'') cob_old
   \<and> \<not> str_contains (''<a>'' @ [CHR 0x0D, CHR 0x0A] @ ''</a>'') cod_old
   \<and> \<not> str_contains (''<a>'' @ [CHR 0x0D, CHR 0x0A] @ ''</a>'') mod_old
   \<and> \<not> str_contains (''<a>'' @ [CHR 0x0D, CHR 0x0A] @ ''</a>'') con_old
   \<and> \<not> str_contains (''<a>'' @ [CHR 0x0D, CHR 0x0A] @ ''</a>'') pol_old
   \<and> \<not> str_contains (''<a>'' @ [CHR 0x0D, CHR 0x0A] @ ''</a>'') anchor
   \<and> files (snd (update_invoice ascii_only
         \<lparr>files = (\<lambda>q. Some (''<a>'' @ [CHR 0x0D, CHR 0x0A] @ ''</a>'')), reads = [], warnings = []\<rparr>
         \<lparr>parent_parts = [''tmp''], name = ''f.xml''\<rparr>))
         \<lparr>parent_parts = [''tmp''], name = ''f.xml''\<rparr>
       = Some (''<a>'' @ [CHR 0x0A] @ ''</a>'')"
proof -
  let ?b = "''<a>'' @ [CHR 0x0D, CHR 0x0A] @ ''</a>''"
  let ?w = "\<lparr>files = (\<lambda>q. Some ?b), reads = [], warnings = []\<rparr>"
  let ?q = "\<lparr>parent_parts = [''tmp''], name = ''f.xml''\<rparr>"
  have s: "\<not> str_contains ?b cob_old" "\<not> str_contains ?b cod_old" "\<not> str_contains ?b mod_old"
    "\<not> str_contains ?b con_old" "\<not> str_contains ?b pol_old" "\<not> str_contains ?b anchor"
    by code_simp+
  have f: "files ?w ?q = Some ?b" by simp
  have u: "utf8_valid ?b" by code_simp
  have v: "valid_name (name ?q)" by (simp add: valid_name_def)
  have n: "universal_newlines ?b = ''<a>'' @ [CHR 0x0A] @ ''</a>''" by code_simp
  have c: "content (snd (process_all ascii_only \<lparr>content = ''<a>'' @ [CHR 0x0A] @ ''</a>'', log = []\<rparr>))
             = ''<a>'' @ [CHR 0x0A] @ ''</a>''"
    by code_simp
  from update_invoice_result [where decimal = ascii_only, OF f u v]
  have "files (snd (update_invoice ascii_only ?w ?q)) ?q = Some (''<a>'' @ [CHR 0x0A] @ ''</a>'')"
    by (simp only: n c snd_conv world.select_convs fun_upd_same)
  with s show ?thesis by - (intro conjI; assumption)
qed

section \<open>The nested documents of the tree-based engine\<close>

text \<open>
  What the loop over the slice keeps of a match list: at most the element at index 1.
\<close>

lemma collect_single:
  "collect_description_xmls tag_string parse [t] =
     (case tag_string t of
        None \<Rightarrow> []
      | Some text \<Rightarrow> if text = [] then [] else (case parse text of None \<Rightarrow> [] | Some x \<Rightarrow> [(t, x)]))"
  by (simp split: option.splits)

lemma slice_second_only:
  "collect_description_xmls tag_string parse (take 1 (drop 1 tags)) =
     (if 1 < length tags then collect_description_xmls tag_string parse [tags ! 1] else [])"
proof (cases tags)
  case Nil
  then show ?thesis by simp
next
  case (Cons a rest)
  then show ?thesis by (cases rest) simp_all
qed

lemma find_all_on_parsed:
  "find_all descriptions (Parsed s) = Inr (descriptions s)"
  by (simp add: find_all_def)

text \<open>
  Claim C8. The claim is that the tree-based strategy extracts and patches the nested
  document of the second Description element, and of no other. The method
  \<open>_get_all_description_xmls\<close> is written to do so, with the slice from index 1 to index 2,
  but it reaches the slice on no document: \<open>self.soup\<close> is the method, not what it returns,
  and \<open>self.soup.find_all\<close> raises \<open>AttributeError\<close>, whatever the tags, the nested texts and
  the state of the processor.
\<close>

theorem get_all_description_xmls_raises:
  "get_all_description_xmls tag_string parse descriptions i = Inl AttributeError"
  by (simp add: get_all_description_xmls_def find_all_def soup_attribute_def)

end
